theory Spec2Isabelle
  imports Main "HOL-Library.Word"
begin

unbundle bit_operations_syntax

section \<open>The Zeus superblock header (zeussuperblockheader.h)\<close>

text \<open>
  The header of a superblock keeps the bookkeeping of one pool of fixed-size slots.
  Pointers, \<open>size_t\<close> and \<open>uint64_t\<close> are 64-bit words, \<open>unsigned int\<close> counters are 32-bit
  words; arithmetic on them wraps as in the C++ source. The assertions are compiled in: a
  failed \<open>assert\<close> (and the division by zero in the initialiser list) ends the process, and
  is the \<open>Inl\<close> branch of every operation. The lock, the owner and the list links play no
  part in the operations below; the links are kept as fields, the lock is left out. The
  contents of the slots are not modelled: the free list is the sequence of the addresses
  linked into it.
\<close>

type_synonym addr = "64 word"
type_synonym uint = "32 word"

datatype fatal = AssertionFailed | DivisionByZero

definition MAX_PINNED :: nat where
  "MAX_PINNED = 100"

definition IN_USE :: addr where
  "IN_USE = 1"

definition Alignment :: addr where
  "Alignment = 16"

definition MAGIC_NUMBER :: addr where
  "MAGIC_NUMBER = 0xcafed00d"

record header =
  this_ptr :: addr
  magicNumber :: addr
  objectSize :: addr
  objectSizeIsPowerOfTwo :: bool
  totalObjects :: uint
  owner :: addr
  prev :: addr
  "next" :: addr
  reapableObjects :: uint
  objectsFree :: uint
  start :: addr
  position :: addr
  pinned :: "addr list"
  mr :: addr
  freeList :: "addr list"

text \<open>
  What the constructor finds around it: the address the header is built at, the result of
  \<open>rdma_get_pd()\<close>, the handle \<open>ibv_reg_mr\<close> would return, and the bytes already in
  memory where the array \<open>_pinned\<close> lies (the constructor does not initialise it).
\<close>

record env =
  env_this :: addr
  env_pd :: addr
  env_reg_mr :: addr
  env_pinned :: "nat \<Rightarrow> addr"

text \<open>
  Modelled from the spec: \<open>HL::align\<close> of Heap-Layers (included through heaplayers.h)
  rounds an address up to the next multiple of the alignment, a power of two.
\<close>

definition align :: "addr \<Rightarrow> addr \<Rightarrow> addr" where
  "align a v = (v + (a - 1)) AND NOT (a - 1)"

text \<open>
  Modelled from the spec: \<open>FreeSLList\<close> of Heap-Layers (included through heaplayers.h),
  the intrusive singly-linked list of released slots. \<open>insert\<close> links an entry in at the
  head, \<open>get\<close> unlinks the head and returns it (the null pointer when the list is empty),
  \<open>clear\<close> empties the list.
\<close>

definition FreeSLList_insert :: "addr \<Rightarrow> addr list \<Rightarrow> addr list" where
  "FreeSLList_insert e l = e # l"

definition FreeSLList_get :: "addr list \<Rightarrow> addr \<times> addr list" where
  "FreeSLList_get l = (case l of [] \<Rightarrow> (0, []) | e # es \<Rightarrow> (e, es))"

definition FreeSLList_clear :: "addr list \<Rightarrow> addr list" where
  "FreeSLList_clear l = []"

definition isValid :: "header \<Rightarrow> bool" where
  "isValid s \<longleftrightarrow> magicNumber s = MAGIC_NUMBER XOR this_ptr s"

definition ZeusSuperblockHeaderHelper ::
    "env \<Rightarrow> addr \<Rightarrow> addr \<Rightarrow> addr \<Rightarrow> fatal + header" where
  "ZeusSuperblockHeaderHelper e sz bufferSize st =
     (if sz = 0 then Inl DivisionByZero
      else
        let s = \<lparr> this_ptr = env_this e,
                  magicNumber = MAGIC_NUMBER XOR env_this e,
                  objectSize = sz,
                  objectSizeIsPowerOfTwo = (sz AND (sz - 1) = 0 \<and> sz \<noteq> 0),
                  totalObjects = ucast (bufferSize div sz),
                  owner = 0,
                  prev = 0,
                  next = 0,
                  reapableObjects = ucast (bufferSize div sz),
                  objectsFree = ucast (bufferSize div sz),
                  start = st,
                  position = st,
                  pinned = map (env_pinned e) [0..<MAX_PINNED],
                  mr = 0,
                  freeList = [] \<rparr>
        in if align Alignment st \<noteq> st then Inl AssertionFailed
           else if \<not> Alignment \<le> objectSize s then Inl AssertionFailed
           else if \<not> (totalObjects s = 1 \<or> objectSize s mod Alignment = 0)
             then Inl AssertionFailed
           else if env_pd e \<noteq> 0 then Inr (s\<lparr>mr := env_reg_mr e\<rparr>)
           else Inr s)"

definition clear :: "header \<Rightarrow> fatal + header" where
  "clear s =
     (if \<not> isValid s then Inl AssertionFailed
      else Inr (s\<lparr>freeList := FreeSLList_clear (freeList s),
                  objectsFree := totalObjects s,
                  reapableObjects := totalObjects s,
                  position := align Alignment (start s)\<rparr>))"

text \<open>The calls the destructor makes into the verbs library, in order.\<close>

datatype hw_call = ibv_dereg_mr addr

definition ZeusSuperblockHeaderHelper_dtor :: "header \<Rightarrow> fatal + header \<times> hw_call list" where
  "ZeusSuperblockHeaderHelper_dtor s =
     (case clear s of
        Inl f \<Rightarrow> Inl f
      | Inr s1 \<Rightarrow> Inr (s1, [ibv_dereg_mr (mr s1)]))"

definition normalize :: "header \<Rightarrow> addr \<Rightarrow> fatal + addr" where
  "normalize s ptr =
     (if \<not> isValid s then Inl AssertionFailed
      else
        let offset = ptr - start s
        in if objectSizeIsPowerOfTwo s
           then Inr (ptr - (offset AND (objectSize s - 1)))
           else Inr (ptr - (offset mod objectSize s)))"

definition getSize :: "header \<Rightarrow> addr \<Rightarrow> fatal + addr" where
  "getSize s ptr =
     (if \<not> isValid s then Inl AssertionFailed
      else
        let offset = ptr - start s
        in if objectSizeIsPowerOfTwo s
           then Inr (objectSize s - (offset AND (objectSize s - 1)))
           else Inr (objectSize s - (offset mod objectSize s)))"

text \<open>
  The three loops over the pin table have one shape:
  \<open>for (int i = 0; i < MAX_PINNED; i++) if (P (_pinned[i])) { ...; return; }\<close>.
  \<open>scan P t i\<close> is the index at which the loop started at \<open>i\<close> takes its \<open>if\<close>, if any.
\<close>

function scan :: "(addr \<Rightarrow> bool) \<Rightarrow> addr list \<Rightarrow> nat \<Rightarrow> nat option" where
  "scan P t i =
     (if i < MAX_PINNED
      then (if P (t ! i) then Some i else scan P t (i + 1))
      else None)"
  by pat_completeness auto
termination
  by (relation "measure (\<lambda>(P, t, i). MAX_PINNED - i)") auto

declare scan.simps [simp del]

definition reapAlloc :: "header \<Rightarrow> fatal + addr \<times> header" where
  "reapAlloc s =
     (if \<not> isValid s then Inl AssertionFailed
      else if position s = 0 then Inl AssertionFailed
      else if 0 < reapableObjects s then
        let ptr = position s;
            s1 = s\<lparr>position := ptr + objectSize s,
                   reapableObjects := reapableObjects s - 1,
                   objectsFree := objectsFree s - 1\<rparr>
        in if ptr mod Alignment \<noteq> 0 then Inl AssertionFailed else Inr (ptr, s1)
      else Inr (0, s))"

definition freeListAlloc :: "header \<Rightarrow> fatal + addr \<times> header" where
  "freeListAlloc s =
     (if \<not> isValid s then Inl AssertionFailed
      else
        let (ptr, l) = FreeSLList_get (freeList s);
            s1 = s\<lparr>freeList := l\<rparr>
        in if ptr \<noteq> 0 then
             (if \<not> 1 \<le> objectsFree s1 then Inl AssertionFailed
              else Inr (ptr, s1\<lparr>objectsFree := objectsFree s1 - 1\<rparr>))
           else Inr (ptr, s1))"

definition malloc :: "header \<Rightarrow> fatal + addr \<times> header" where
  "malloc s =
     (if \<not> isValid s then Inl AssertionFailed
      else case reapAlloc s of
        Inl f \<Rightarrow> Inl f
      | Inr (ptr, s1) \<Rightarrow>
          (if \<not> (ptr = 0 \<or> ptr mod Alignment = 0) then Inl AssertionFailed
           else case (if ptr = 0
                      then (case freeListAlloc s1 of
                              Inl f \<Rightarrow> Inl f
                            | Inr (ptr2, s2) \<Rightarrow>
                                (if \<not> (ptr2 = 0 \<or> ptr2 mod Alignment = 0)
                                 then Inl AssertionFailed else Inr (ptr2, s2)))
                      else Inr (ptr, s1)) of
             Inl f \<Rightarrow> Inl f
           | Inr (p, s3) \<Rightarrow>
               (if p \<noteq> 0 then
                  (case getSize s3 p of
                     Inl f \<Rightarrow> Inl f
                   | Inr n \<Rightarrow>
                       (if \<not> objectSize s3 \<le> n then Inl AssertionFailed
                        else if p mod Alignment \<noteq> 0 then Inl AssertionFailed
                        else Inr (p, s3)))
                else Inr (p, s3))))"

text \<open>
  The tail that \<open>free\<close> and \<open>unpin\<close> both spell out,
  \<open>_freeList.insert (...); _objectsFree++; if (_objectsFree == _totalObjects) clear();\<close>:
  link the slot into the free list, count it, and reset the superblock when every slot is
  free again.
\<close>

definition reclaim :: "header \<Rightarrow> addr \<Rightarrow> fatal + header" where
  "reclaim s ptr =
     (let s1 = s\<lparr>freeList := FreeSLList_insert ptr (freeList s),
                 objectsFree := objectsFree s + 1\<rparr>
      in if objectsFree s1 = totalObjects s1 then clear s1 else Inr s1)"

text \<open>
  \<open>free\<close> compares the entries with \<open>ptr\<close> as it is passed. In
  \<open>assert(_pinned[i] & IN_USE == 1)\<close> the comparison binds tighter than \<open>&\<close>: the
  assertion is that \<open>_pinned[i] & 1\<close> is not zero.
\<close>

definition free :: "header \<Rightarrow> addr \<Rightarrow> fatal + header" where
  "free s ptr =
     (if ptr mod Alignment \<noteq> 0 then Inl AssertionFailed
      else if \<not> isValid s then Inl AssertionFailed
      else case scan (\<lambda>e. e AND NOT IN_USE = ptr) (pinned s) 0 of
        Some i \<Rightarrow>
          if pinned s ! i AND 1 = 0 then Inl AssertionFailed
          else Inr (s\<lparr>pinned := (pinned s)[i := pinned s ! i AND NOT IN_USE]\<rparr>)
      | None \<Rightarrow> reclaim s ptr)"

definition pin :: "header \<Rightarrow> addr \<Rightarrow> fatal + header" where
  "pin s ptr =
     (if \<not> isValid s then Inl AssertionFailed
      else case normalize s ptr of
        Inl f \<Rightarrow> Inl f
      | Inr obj \<Rightarrow>
          (case scan (\<lambda>e. e = 0) (pinned s) 0 of
             Some i \<Rightarrow> Inr (s\<lparr>pinned := (pinned s)[i := obj OR IN_USE]\<rparr>)
           | None \<Rightarrow> Inl AssertionFailed))"

definition unpin :: "header \<Rightarrow> addr \<Rightarrow> fatal + header" where
  "unpin s ptr =
     (if \<not> isValid s then Inl AssertionFailed
      else case normalize s ptr of
        Inl f \<Rightarrow> Inl f
      | Inr obj \<Rightarrow>
          (case scan (\<lambda>e. e AND NOT IN_USE = obj) (pinned s) 0 of
             Some i \<Rightarrow>
               (case (if pinned s ! i AND IN_USE = 0 then reclaim s obj else Inr s) of
                  Inl f \<Rightarrow> Inl f
                | Inr s1 \<Rightarrow> Inr (s1\<lparr>pinned := (pinned s1)[i := 0]\<rparr>))
           | None \<Rightarrow> Inl AssertionFailed))"

section \<open>Clients of a superblock\<close>

text \<open>
  \<open>malloc_n n\<close> calls \<open>malloc\<close> \<open>n\<close> times in a row and collects the pointers returned.
\<close>

fun malloc_n :: "nat \<Rightarrow> header \<Rightarrow> fatal + addr list \<times> header" where
  "malloc_n 0 s = Inr ([], s)"
| "malloc_n (Suc n) s =
     (case malloc s of
        Inl f \<Rightarrow> Inl f
      | Inr (p, s1) \<Rightarrow>
          (case malloc_n n s1 of
             Inl f \<Rightarrow> Inl f
           | Inr (ps, s2) \<Rightarrow> Inr (p # ps, s2)))"

text \<open>\<open>free_all ps\<close> releases the pointers of \<open>ps\<close> in the order of the list.\<close>

fun free_all :: "addr list \<Rightarrow> header \<Rightarrow> fatal + header" where
  "free_all [] s = Inr s"
| "free_all (p # ps) s =
     (case free s p of
        Inl f \<Rightarrow> Inl f
      | Inr s1 \<Rightarrow> free_all ps s1)"

text \<open>
  A client drives a superblock by a sequence of calls. Beside the header, a run keeps the
  set of live pointers: those returned by \<open>malloc\<close> and not yet passed to \<open>free\<close>. A run
  stops at a fatal condition of the code, and at a call the client may not make:
  \<open>free\<close> of a pointer that is not live, \<open>unpin\<close> of a pointer outside the slot region
  and, under the discipline \<open>once\<close>, \<open>pin\<close> of a slot that the pin table names already.
\<close>

datatype call = Allocate | Release addr | Pin addr | Unpin addr

datatype stop = Fatal fatal | Misuse

definition in_slots :: "header \<Rightarrow> addr \<Rightarrow> bool" where
  "in_slots s p \<longleftrightarrow>
     unat (start s) \<le> unat p \<and>
     unat p < unat (start s) + unat (totalObjects s) * unat (objectSize s)"

text \<open>The addresses the occupied entries of the pin table name.\<close>

definition pinned_names :: "header \<Rightarrow> addr list" where
  "pinned_names s = map (\<lambda>e. e AND NOT IN_USE) (filter (\<lambda>e. e \<noteq> 0) (pinned s))"

fun step :: "bool \<Rightarrow> call \<Rightarrow> header \<times> addr set \<Rightarrow> stop + header \<times> addr set" where
  "step once Allocate (s, L) =
     (case malloc s of
        Inl f \<Rightarrow> Inl (Fatal f)
      | Inr (p, s1) \<Rightarrow> Inr (s1, if p = 0 then L else insert p L))"
| "step once (Release p) (s, L) =
     (if p \<notin> L then Inl Misuse
      else case free s p of
        Inl f \<Rightarrow> Inl (Fatal f)
      | Inr s1 \<Rightarrow> Inr (s1, L - {p}))"
| "step once (Pin p) (s, L) =
     (if once \<and> (\<not> in_slots s p \<or>
          (case normalize s p of Inl f \<Rightarrow> False | Inr obj \<Rightarrow> obj \<in> set (pinned_names s)))
      then Inl Misuse
      else case pin s p of
        Inl f \<Rightarrow> Inl (Fatal f)
      | Inr s1 \<Rightarrow> Inr (s1, L))"
| "step once (Unpin p) (s, L) =
     (if \<not> in_slots s p then Inl Misuse
      else case unpin s p of
        Inl f \<Rightarrow> Inl (Fatal f)
      | Inr s1 \<Rightarrow> Inr (s1, L))"

fun run :: "bool \<Rightarrow> call list \<Rightarrow> header \<times> addr set \<Rightarrow> stop + header \<times> addr set" where
  "run once [] c = Inr c"
| "run once (x # xs) c =
     (case step once x c of
        Inl f \<Rightarrow> Inl f
      | Inr c1 \<Rightarrow> run once xs c1)"

text \<open>
  The memory a superblock is built in: the buffer starts at a non-null address, lies
  within the address space, and the bytes under the pin table are zero (as in memory
  fresh from the operating system).
\<close>

definition fresh :: "env \<Rightarrow> addr \<Rightarrow> addr \<Rightarrow> bool" where
  "fresh e bufferSize st \<longleftrightarrow>
     st \<noteq> 0 \<and> unat st + unat bufferSize < 2 ^ 64 \<and>
     list_all (\<lambda>i. env_pinned e i = 0) [0..<MAX_PINNED]"

section \<open>The invariant of a superblock in use\<close>

text \<open>\<open>slot s k\<close> is the base address of the \<open>k\<close>-th slot.\<close>

definition slot :: "header \<Rightarrow> nat \<Rightarrow> addr" where
  "slot s k = start s + of_nat k * objectSize s"

text \<open>What construction fixes for good.\<close>

definition geometry :: "header \<Rightarrow> bool" where
  "geometry s \<longleftrightarrow>
     isValid s \<and> 16 \<le> unat (objectSize s) \<and> start s \<noteq> 0 \<and> unat (start s) mod 16 = 0 \<and>
     (unat (totalObjects s) = 1 \<or> unat (objectSize s) mod 16 = 0) \<and>
     unat (start s) + unat (totalObjects s) * unat (objectSize s) < 2 ^ 64 \<and>
     objectSizeIsPowerOfTwo s = (objectSize s AND (objectSize s - 1) = 0 \<and> objectSize s \<noteq> 0) \<and>
     length (pinned s) = MAX_PINNED"

text \<open>The slots whose release is recorded in the pin table and not yet carried out.\<close>

definition deferred :: "header \<Rightarrow> addr list" where
  "deferred s = filter (\<lambda>e. e \<noteq> 0 \<and> e AND 1 = 0) (pinned s)"

text \<open>The number of slots the reap cursor has handed out since the last reset.\<close>

definition reaped :: "header \<Rightarrow> nat" where
  "reaped s = unat (totalObjects s) - unat (reapableObjects s)"

text \<open>
  The invariant, for a header \<open>s\<close> and the set \<open>L\<close> of live pointers: the cursor stands at the
  first slot never handed out, \<open>objectsFree\<close> counts the slots still to reap and those on
  the free list, and every slot handed out is exactly one of live, on the free list, or
  deferred.
\<close>

definition consistent :: "header \<Rightarrow> addr set \<Rightarrow> bool" where
  "consistent s L \<longleftrightarrow>
     geometry s \<and>
     unat (reapableObjects s) \<le> unat (totalObjects s) \<and>
     position s = slot s (reaped s) \<and>
     unat (objectsFree s) = unat (reapableObjects s) + length (freeList s) \<and>
     distinct (freeList s @ deferred s) \<and>
     L \<inter> set (freeList s @ deferred s) = {} \<and>
     L \<union> set (freeList s @ deferred s) = slot s ` {..<reaped s}"

text \<open>A superblock whose slots are all free has been reset: nothing is reaped.\<close>

definition settled :: "header \<Rightarrow> bool" where
  "settled s \<longleftrightarrow> (objectsFree s = totalObjects s \<longrightarrow> reapableObjects s = totalObjects s)"

section \<open>A small superblock\<close>

text \<open>
  Four slots of 64 bytes at address \<open>0x2000\<close>, built without a hardware context in
  zero-filled memory.
\<close>

definition env0 :: env where
  "env0 = \<lparr>env_this = 0x1000, env_pd = 0, env_reg_mr = 0, env_pinned = (\<lambda>i. 0)\<rparr>"

definition hdr0 :: header where
  "hdr0 = \<lparr>this_ptr = 0x1000, magicNumber = MAGIC_NUMBER XOR 0x1000, objectSize = 64,
     objectSizeIsPowerOfTwo = True, totalObjects = 4, owner = 0, prev = 0, next = 0,
     reapableObjects = 4, objectsFree = 4, start = 0x2000, position = 0x2000,
     pinned = replicate 100 0, mr = 0, freeList = []\<rparr>"

text \<open>The same construction over a buffer of 32 bytes, too small for one slot.\<close>

definition hdr_empty :: header where
  "hdr_empty = \<lparr>this_ptr = 0x1000, magicNumber = MAGIC_NUMBER XOR 0x1000, objectSize = 64,
     objectSizeIsPowerOfTwo = True, totalObjects = 0, owner = 0, prev = 0, next = 0,
     reapableObjects = 0, objectsFree = 0, start = 0x2000, position = 0x2000,
     pinned = replicate 100 0, mr = 0, freeList = []\<rparr>"

text \<open>The small superblock with every entry of the pin table occupied.\<close>

definition hdr_full :: header where
  "hdr_full = hdr0\<lparr>pinned := replicate 100 0x2001\<rparr>"

text \<open>Three slots of 48 bytes, a size that is not a power of two.\<close>

definition hdr48 :: header where
  "hdr48 = \<lparr>this_ptr = 0x1000, magicNumber = MAGIC_NUMBER XOR 0x1000, objectSize = 48,
     objectSizeIsPowerOfTwo = False, totalObjects = 3, owner = 0, prev = 0, next = 0,
     reapableObjects = 3, objectsFree = 3, start = 0x2000, position = 0x2000,
     pinned = replicate 100 0, mr = 0, freeList = []\<rparr>"

text \<open>
  The small superblock after \<open>malloc\<close>, \<open>malloc\<close> and \<open>pin\<close> of the first slot, and after
  \<open>malloc\<close> and two \<open>pin\<close>s of the first slot.
\<close>

definition hdr_pinned :: header where
  "hdr_pinned = hdr0\<lparr>position := 0x2080, reapableObjects := 2, objectsFree := 2,
     pinned := (replicate 100 0)[0 := 0x2001]\<rparr>"

definition hdr_twice :: header where
  "hdr_twice = hdr0\<lparr>position := 0x2040, reapableObjects := 3, objectsFree := 3,
     pinned := (replicate 100 0)[0 := 0x2001, 1 := 0x2001]\<rparr>"

text \<open>The small superblock with all four slots handed out.\<close>

definition hdr_all :: header where
  "hdr_all = hdr0\<lparr>position := 0x2100, reapableObjects := 0, objectsFree := 0\<rparr>"

section \<open>Addresses of slots\<close>

lemma unat_slot:
  assumes "geometry s" "k \<le> unat (totalObjects s)"
  shows "unat (slot s k) = unat (start s) + k * unat (objectSize s)"
proof -
  let ?S = "unat (start s)" and ?z = "unat (objectSize s)" and ?T = "unat (totalObjects s)"
  have b: "?S + ?T * ?z < 2 ^ 64" and z: "16 \<le> ?z" using assms(1) by (simp_all add: geometry_def)
  have kz: "k * ?z \<le> ?T * ?z" using assms(2) by (rule mult_le_mono1)
  have "?T < 2 ^ 32" using unsigned_less [of "totalObjects s"] by simp
  then have k64: "k < 2 ^ 64" using assms(2) by simp
  have kz64: "k * ?z < 2 ^ 64" using kz b by linarith
  have "unat (of_nat k :: addr) = k" using k64 by (simp add: unat_of_nat)
  then have m: "unat (of_nat k * objectSize s :: addr) = k * ?z"
    using kz64 by (simp add: unat_word_ariths)
  have "?S + k * ?z < 2 ^ 64" using kz b by linarith
  then show ?thesis using m
    by (simp add: slot_def unat_word_ariths)
qed

lemma slot_inj:
  assumes "geometry s" "k \<le> unat (totalObjects s)" "j \<le> unat (totalObjects s)"
    and "slot s k = slot s j"
  shows "k = j"
proof -
  have "unat (slot s k) = unat (slot s j)" using assms(4) by simp
  then have "k * unat (objectSize s) = j * unat (objectSize s)"
    using assms(1-3) by (simp only: unat_slot add_left_cancel)
  moreover have "0 < unat (objectSize s)" using assms(1) by (simp add: geometry_def)
  ultimately show ?thesis by simp
qed

lemma slot_nonzero:
  assumes "geometry s" "k \<le> unat (totalObjects s)"
  shows "slot s k \<noteq> 0"
proof -
  have "0 < unat (start s)" using assms(1) by (simp add: geometry_def unat_gt_0)
  then have "0 < unat (slot s k)" using assms by (simp add: unat_slot)
  then show ?thesis by (simp add: unat_gt_0)
qed

lemma slot_aligned:
  assumes "geometry s" "k < unat (totalObjects s)"
  shows "slot s k mod Alignment = 0"
proof -
  have k: "k \<le> unat (totalObjects s)" using assms(2) by simp
  have "(unat (start s) + k * unat (objectSize s)) mod 16 = 0"
  proof (cases "unat (totalObjects s) = 1")
    case True
    then have "k = 0" using assms(2) by simp
    then show ?thesis using assms(1) by (simp add: geometry_def)
  next
    case False
    then have "unat (objectSize s) mod 16 = 0" "unat (start s) mod 16 = 0"
      using assms(1) by (auto simp add: geometry_def)
    then show ?thesis by (metis add.right_neutral mod_add_eq mod_mult_right_eq mult_0_right mod_0)
  qed
  then have "unat (slot s k mod Alignment) = 0"
    using assms(1) k by (simp add: unat_mod unat_slot Alignment_def)
  then show ?thesis by (simp add: unat_eq_0)
qed

lemma nat_pow2_mask:
  fixes w x :: nat
  shows "0 < w \<Longrightarrow> w AND (w - 1) = 0 \<Longrightarrow> x AND (w - 1) = x mod w"
proof (induction w arbitrary: x rule: less_induct)
  case (less w)
  show ?case
  proof (cases "w = 1")
    case True
    then show ?thesis by simp
  next
    case False
    with less.prems have w2: "2 \<le> w" by simp
    show ?thesis
    proof (cases "even w")
      case True
      then obtain v where v: "w = 2 * v" by (auto elim: evenE)
      with w2 have v1: "1 \<le> v" by simp
      have wm: "w - 1 = 2 * (v - 1) + 1" using v v1 by simp
      have "w AND (w - 1) = 2 * (v AND (v - 1))"
        unfolding wm unfolding v by (subst and_rec) simp
      then have va: "v AND (v - 1) = 0" using less.prems(2) by simp
      have ih: "(x div 2) AND (v - 1) = (x div 2) mod v"
        using less.IH [of v "x div 2"] v v1 va by simp
      have "x AND (w - 1) = x mod 2 + 2 * ((x div 2) AND (v - 1))"
        unfolding wm by (subst and_rec) (simp add: mod_2_eq_odd)
      also have "\<dots> = x mod 2 + 2 * ((x div 2) mod v)" using ih by simp
      also have "\<dots> = x mod w" unfolding v by (simp add: mod_mult2_eq)
      finally show ?thesis .
    next
      case False
      then obtain v where v: "w = 2 * v + 1" by (auto elim: oddE)
      with w2 have v1: "1 \<le> v" by simp
      have "w AND (w - 1) = 2 * (v AND v)"
        unfolding v by (subst and_rec) simp
      then show ?thesis using less.prems(2) v1 by simp
    qed
  qed
qed

lemma word_pow2_mask:
  fixes w x :: addr
  assumes "w AND (w - 1) = 0" "w \<noteq> 0"
  shows "x AND (w - 1) = x mod w"
proof -
  have w0: "0 < unat w" using assms(2) by (simp add: unat_gt_0)
  have wm: "unat (w - 1) = unat w - 1" using assms(2) by (simp add: unat_minus_one)
  have "unat (w AND (w - 1)) = 0" using assms(1) by simp
  then have h: "unat w AND (unat w - 1) = 0" by (simp add: unsigned_and_eq wm)
  have "unat x AND (unat w - 1) = unat x mod unat w" by (rule nat_pow2_mask [OF w0 h])
  then have "unat (x AND (w - 1)) = unat (x mod w)" by (simp add: unsigned_and_eq wm unat_mod)
  then show ?thesis by (simp add: word_unat_eq_iff)
qed

lemma align_id:
  fixes v :: addr
  assumes "unat v mod 16 = 0"
  shows "align Alignment v = v"
proof -
  have "v mod 16 = 0" using assms by (simp add: word_unat_eq_iff unat_mod)
  then have m: "v AND 15 = 0" using word_mod_2p_is_mask [of 4 v] by (simp add: mask_eq_exp_minus_1)
  then have "v + 15 = v OR 15" by (rule disjunctive_add_eq_or)
  moreover have "(v OR 15) AND NOT 15 = v AND NOT 15"
    by (simp add: bit.conj_disj_distrib2)
  moreover have "v AND NOT 15 = v"
  proof -
    have "v = v AND (15 OR NOT 15)" by simp
    also have "\<dots> = (v AND 15) OR (v AND NOT 15)" by (simp only: bit.conj_disj_distrib)
    finally show ?thesis using m by simp
  qed
  ultimately show ?thesis by (simp add: align_def Alignment_def)
qed

lemma slot_offset:
  assumes "geometry s" "k < unat (totalObjects s)" "unat d < unat (objectSize s)"
  shows "(slot s k + d - start s) mod objectSize s = d"
proof -
  let ?z = "unat (objectSize s)"
  have b: "unat (start s) + unat (totalObjects s) * ?z < 2 ^ 64"
    using assms(1) by (simp add: geometry_def)
  have "Suc k * ?z \<le> unat (totalObjects s) * ?z" using assms(2) by (intro mult_le_mono1) simp
  then have kz: "k * ?z + unat d < 2 ^ 64" using b assms(3) by simp
  have e: "slot s k + d - start s = of_nat k * objectSize s + d" by (simp add: slot_def)
  have u: "unat (of_nat k * objectSize s + d) = k * ?z + unat d"
  proof -
    have "unat (totalObjects s) < 2 ^ 32" using unsigned_less [of "totalObjects s"] by simp
    then have "k < 2 ^ 64" using assms(2) by simp
    then have "unat (of_nat k :: addr) = k" by (simp add: unat_of_nat)
    moreover have "k * ?z < 2 ^ 64" using kz by simp
    ultimately have "unat (of_nat k * objectSize s) = k * ?z" by (simp add: unat_word_ariths)
    then show ?thesis using kz by (simp add: unat_word_ariths)
  qed
  have "unat ((slot s k + d - start s) mod objectSize s) = (k * ?z + unat d) mod ?z"
    unfolding e by (simp only: unat_mod u)
  then have "unat ((slot s k + d - start s) mod objectSize s) = unat d"
    using assms(3) by simp
  then show ?thesis by (simp add: word_unat_eq_iff)
qed

lemma normalize_slot:
  assumes "geometry s" "k < unat (totalObjects s)" "unat d < unat (objectSize s)"
  shows "normalize s (slot s k + d) = Inr (slot s k)"
proof -
  have v: "isValid s" using assms(1) by (simp add: geometry_def)
  have m: "(slot s k + d - start s) mod objectSize s = d" using assms by (rule slot_offset)
  show ?thesis
  proof (cases "objectSizeIsPowerOfTwo s")
    case True
    then have "objectSize s AND (objectSize s - 1) = 0" "objectSize s \<noteq> 0"
      using assms(1) by (simp_all add: geometry_def)
    then have "(slot s k + d - start s) AND (objectSize s - 1) = d"
      using m by (simp add: word_pow2_mask)
    then show ?thesis using v True by (simp add: normalize_def)
  next
    case False
    then show ?thesis using v m by (simp add: normalize_def)
  qed
qed

lemma getSize_slot:
  assumes "geometry s" "k < unat (totalObjects s)"
  shows "getSize s (slot s k) = Inr (objectSize s)"
proof -
  have v: "isValid s" using assms(1) by (simp add: geometry_def)
  have "0 < unat (objectSize s)" using assms(1) by (simp add: geometry_def)
  then have "(slot s k + 0 - start s) mod objectSize s = 0" using assms by (intro slot_offset) simp_all
  then have m: "(slot s k - start s) mod objectSize s = 0" by simp
  show ?thesis
  proof (cases "objectSizeIsPowerOfTwo s")
    case True
    then have "objectSize s AND (objectSize s - 1) = 0" "objectSize s \<noteq> 0"
      using assms(1) by (simp_all add: geometry_def)
    then have "(slot s k - start s) AND (objectSize s - 1) = 0"
      using m by (simp add: word_pow2_mask)
    then show ?thesis using v True by (simp add: getSize_def)
  next
    case False
    then show ?thesis using v m by (simp add: getSize_def)
  qed
qed

section \<open>The loop over the pin table\<close>

lemma scan_Some:
  "scan P t i = Some j \<Longrightarrow>
     i \<le> j \<and> j < MAX_PINNED \<and> P (t ! j) \<and> (\<forall>k. i \<le> k \<and> k < j \<longrightarrow> \<not> P (t ! k))"
proof (induction P t i rule: scan.induct)
  case (1 P t i)
  show ?case
  proof (cases "i < MAX_PINNED \<and> \<not> P (t ! i)")
    case True
    then have "scan P t (i + 1) = Some j" using "1.prems" by (simp add: scan.simps [of P t i])
    then have ih: "i + 1 \<le> j \<and> j < MAX_PINNED \<and> P (t ! j) \<and>
        (\<forall>k. i + 1 \<le> k \<and> k < j \<longrightarrow> \<not> P (t ! k))"
      using "1.IH" True by simp
    have "\<not> P (t ! k)" if "i \<le> k" "k < j" for k
    proof (cases "k = i")
      case True
      then show ?thesis using \<open>i < MAX_PINNED \<and> \<not> P (t ! i)\<close> by simp
    next
      case False
      then show ?thesis using ih that by simp
    qed
    then show ?thesis using ih by simp
  next
    case False
    then show ?thesis using "1.prems" by (auto simp add: scan.simps [of P t i] split: if_splits)
  qed
qed

lemma scan_None:
  "scan P t i = None \<Longrightarrow> i \<le> k \<Longrightarrow> k < MAX_PINNED \<Longrightarrow> \<not> P (t ! k)"
proof (induction P t i rule: scan.induct)
  case (1 P t i)
  have i: "i < MAX_PINNED" using "1.prems" by simp
  have n: "\<not> P (t ! i)" and r: "scan P t (i + 1) = None"
    using "1.prems"(1) i by (simp_all add: scan.simps [of P t i] split: if_splits)
  show ?case
  proof (cases "k = i")
    case True
    then show ?thesis using n by simp
  next
    case False
    then show ?thesis using "1.IH" [OF i n r] "1.prems" by simp
  qed
qed

lemma scan_found:
  assumes "k < MAX_PINNED" "P (t ! k)"
  shows "\<exists>j. scan P t 0 = Some j"
proof (cases "scan P t 0")
  case None
  then have "\<not> P (t ! k)" using assms(1) by (intro scan_None [of P t 0 k]) simp_all
  then show ?thesis using assms(2) by simp
next
  case (Some j)
  then show ?thesis by simp
qed

section \<open>Filtering an updated list\<close>

lemma filter_update_out:
  assumes "i < length t" "\<not> Q (t ! i)" "\<not> Q v"
  shows "filter Q (t[i := v]) = filter Q t"
proof -
  have "t = take i t @ t ! i # drop (Suc i) t" using assms(1) by (rule id_take_nth_drop)
  then have "filter Q t = filter Q (take i t) @ filter Q (drop (Suc i) t)"
    using assms(2) by (metis filter.simps(2) filter_append)
  moreover have "filter Q (t[i := v]) = filter Q (take i t) @ filter Q (drop (Suc i) t)"
    using assms(1,3) by (simp add: upd_conv_take_nth_drop)
  ultimately show ?thesis by simp
qed

lemma filter_update_in:
  assumes "i < length t" "\<not> Q (t ! i)" "Q v"
  shows "set (filter Q (t[i := v])) = insert v (set (filter Q t))"
    and "distinct (filter Q t) \<Longrightarrow> v \<notin> set (filter Q t) \<Longrightarrow> distinct (filter Q (t[i := v]))"
proof -
  have "t = take i t @ t ! i # drop (Suc i) t" using assms(1) by (rule id_take_nth_drop)
  then have a: "filter Q t = filter Q (take i t) @ filter Q (drop (Suc i) t)"
    using assms(2) by (metis filter.simps(2) filter_append)
  have b: "filter Q (t[i := v]) = filter Q (take i t) @ v # filter Q (drop (Suc i) t)"
    using assms(1,3) by (simp add: upd_conv_take_nth_drop)
  show "set (filter Q (t[i := v])) = insert v (set (filter Q t))"
    unfolding a b by auto
  show "distinct (filter Q (t[i := v]))" if "distinct (filter Q t)" "v \<notin> set (filter Q t)"
    using that unfolding a b by auto
qed

lemma filter_update_del:
  assumes "i < length t" "Q (t ! i)" "\<not> Q v" "distinct (filter Q t)"
  shows "set (filter Q (t[i := v])) = set (filter Q t) - {t ! i}"
    and "distinct (filter Q (t[i := v]))"
proof -
  have "t = take i t @ t ! i # drop (Suc i) t" using assms(1) by (rule id_take_nth_drop)
  then have a: "filter Q t = filter Q (take i t) @ t ! i # filter Q (drop (Suc i) t)"
    using assms(2) by (metis filter.simps(2) filter_append)
  have b: "filter Q (t[i := v]) = filter Q (take i t) @ filter Q (drop (Suc i) t)"
    using assms(1,3) by (simp add: upd_conv_take_nth_drop)
  show "set (filter Q (t[i := v])) = set (filter Q t) - {t ! i}"
    using assms(4) unfolding a b by auto
  show "distinct (filter Q (t[i := v]))"
    using assms(4) unfolding a b by auto
qed

section \<open>Consequences of the invariant\<close>

lemma unat_uint_less: "unat (t :: uint) < 2 ^ 32"
  using unsigned_less [of t] by simp

lemma consistent_geometry: "consistent s L \<Longrightarrow> geometry s"
  by (simp add: consistent_def)

lemma reaped_le: "reaped s \<le> unat (totalObjects s)"
  by (simp add: reaped_def)

lemma consistent_slots:
  assumes "consistent s L" "p \<in> L \<union> set (freeList s) \<union> set (deferred s)"
  shows "\<exists>k. k < reaped s \<and> k < unat (totalObjects s) \<and> p = slot s k"
proof -
  have "p \<in> slot s ` {..<reaped s}" using assms by (auto simp add: consistent_def)
  then obtain k where "k < reaped s" "p = slot s k" by auto
  then show ?thesis using reaped_le [of s] by auto
qed

lemma slot_inj_on: "geometry s \<Longrightarrow> inj_on (slot s) {..<reaped s}"
proof (rule inj_onI)
  fix k j
  assume g: "geometry s" and "k \<in> {..<reaped s}" "j \<in> {..<reaped s}" "slot s k = slot s j"
  then have kj: "k \<le> unat (totalObjects s)" "j \<le> unat (totalObjects s)"
    using reaped_le [of s] by auto
  show "k = j" by (rule slot_inj [OF g kj \<open>slot s k = slot s j\<close>])
qed

lemma count_slots:
  assumes "consistent s L"
  shows "finite L" and "card L + length (freeList s) + length (deferred s) = reaped s"
proof -
  let ?FD = "freeList s @ deferred s"
  have u: "L \<union> set ?FD = slot s ` {..<reaped s}" and d: "L \<inter> set ?FD = {}"
    and dist: "distinct ?FD"
    using assms by (simp_all add: consistent_def)
  have "finite (L \<union> set ?FD)" unfolding u by simp
  then show f: "finite L" by simp
  have "card (L \<union> set ?FD) = reaped s"
    unfolding u using slot_inj_on [OF consistent_geometry [OF assms]] by (simp add: card_image)
  moreover have "card (L \<union> set ?FD) = card L + card (set ?FD)"
    using f d by (simp add: card_Un_disjoint)
  moreover have "card (set ?FD) = length ?FD" using dist by (rule distinct_card)
  ultimately show "card L + length (freeList s) + length (deferred s) = reaped s" by simp
qed

lemma slot_fresh:
  assumes "consistent s L" "reapableObjects s \<noteq> 0"
  shows "slot s (reaped s) \<notin> L \<union> set (freeList s) \<union> set (deferred s)"
proof
  assume "slot s (reaped s) \<in> L \<union> set (freeList s) \<union> set (deferred s)"
  then obtain k where k: "k < reaped s" "slot s (reaped s) = slot s k"
    using consistent_slots [OF assms(1)] by blast
  have "reaped s \<le> unat (totalObjects s)" "k \<le> unat (totalObjects s)"
    using k(1) reaped_le [of s] by simp_all
  then have "reaped s = k"
    using slot_inj [OF consistent_geometry [OF assms(1)] _ _ k(2)] by simp
  then show False using k(1) by simp
qed

section \<open>Allocation\<close>

lemma getSize_dynamic [simp]:
  "getSize (s\<lparr>position := a, reapableObjects := b, objectsFree := c\<rparr>) p = getSize s p"
  "getSize (s\<lparr>freeList := l, objectsFree := c\<rparr>) p = getSize s p"
  by (simp_all add: getSize_def isValid_def Let_def)

lemma malloc_reap:
  assumes "consistent s L" "reapableObjects s \<noteq> 0"
  shows "malloc s = Inr (position s,
           s\<lparr>position := position s + objectSize s,
             reapableObjects := reapableObjects s - 1,
             objectsFree := objectsFree s - 1\<rparr>)"
proof -
  have g: "geometry s" using assms(1) by (rule consistent_geometry)
  have v: "isValid s" using g by (simp add: geometry_def)
  have r: "0 < unat (reapableObjects s)" using assms(2) by (simp add: unat_gt_0)
  have p: "position s = slot s (reaped s)" using assms(1) by (simp add: consistent_def)
  have k: "reaped s < unat (totalObjects s)" using r assms(1) by (simp add: reaped_def consistent_def)
  have nz: "position s \<noteq> 0" unfolding p using g k by (intro slot_nonzero) simp_all
  have al: "position s mod Alignment = 0" unfolding p using g k by (rule slot_aligned)
  have gs: "getSize s (position s) = Inr (objectSize s)" unfolding p using g k by (rule getSize_slot)
  have r0: "0 < reapableObjects s" using assms(2) by (simp add: word_greater_zero_iff)
  show ?thesis using v nz al gs r0
    by (simp add: malloc_def reapAlloc_def Let_def)
qed

lemma malloc_list:
  assumes "consistent s L" "reapableObjects s = 0" "freeList s = e # es"
  shows "malloc s = Inr (e, s\<lparr>freeList := es, objectsFree := objectsFree s - 1\<rparr>)"
proof -
  have g: "geometry s" using assms(1) by (rule consistent_geometry)
  have v: "isValid s" using g by (simp add: geometry_def)
  obtain k where k: "k < unat (totalObjects s)" "e = slot s k"
    using consistent_slots [OF assms(1), of e] assms(3) by auto
  have p0: "position s \<noteq> 0"
    using assms(1) slot_nonzero [OF g reaped_le] by (simp add: consistent_def)
  have nz: "e \<noteq> 0" unfolding k(2) using g k(1) by (intro slot_nonzero) simp_all
  have al: "e mod Alignment = 0" unfolding k(2) using g k(1) by (rule slot_aligned)
  have gs: "getSize s e = Inr (objectSize s)" unfolding k(2) using g k(1) by (rule getSize_slot)
  have "unat (objectsFree s) = Suc (length es)" using assms by (simp add: consistent_def)
  then have f: "1 \<le> objectsFree s" by (simp add: word_le_nat_alt)
  show ?thesis using v p0 nz al gs f assms(2,3)
    by (simp add: malloc_def reapAlloc_def freeListAlloc_def FreeSLList_get_def Let_def isValid_def)
qed

lemma malloc_exhausted:
  assumes "consistent s L" "reapableObjects s = 0" "freeList s = []"
  shows "malloc s = Inr (0, s)"
proof -
  have g: "geometry s" using assms(1) by (rule consistent_geometry)
  have v: "isValid s" using g by (simp add: geometry_def)
  have p0: "position s \<noteq> 0"
    using assms(1) slot_nonzero [OF g reaped_le] by (simp add: consistent_def)
  have "s\<lparr>freeList := []\<rparr> = s" using assms(3) by simp
  then show ?thesis using v p0 assms(2,3)
    by (simp add: malloc_def reapAlloc_def freeListAlloc_def FreeSLList_get_def Let_def)
qed

lemma slot_static [simp]:
  "slot (s\<lparr>position := a, reapableObjects := b, objectsFree := c\<rparr>) = slot s"
  "slot (s\<lparr>freeList := l, objectsFree := c\<rparr>) = slot s"
  "slot (s\<lparr>pinned := t\<rparr>) = slot s"
  by (simp_all add: slot_def fun_eq_iff)

lemma geometry_static [simp]:
  "geometry (s\<lparr>position := a, reapableObjects := b, objectsFree := c\<rparr>) = geometry s"
  "geometry (s\<lparr>freeList := l, objectsFree := c\<rparr>) = geometry s"
  by (simp_all add: geometry_def isValid_def)

lemma deferred_static [simp]:
  "deferred (s\<lparr>position := a, reapableObjects := b, objectsFree := c\<rparr>) = deferred s"
  "deferred (s\<lparr>freeList := l, objectsFree := c\<rparr>) = deferred s"
  by (simp_all add: deferred_def)

lemma reaped_static [simp]:
  "reaped (s\<lparr>freeList := l, objectsFree := c\<rparr>) = reaped s"
  "reaped (s\<lparr>pinned := t\<rparr>) = reaped s"
  by (simp_all add: reaped_def)

lemma consistent_reap:
  assumes "consistent s L" "reapableObjects s \<noteq> 0"
  shows "consistent (s\<lparr>position := position s + objectSize s,
             reapableObjects := reapableObjects s - 1,
             objectsFree := objectsFree s - 1\<rparr>) (insert (position s) L)"
proof -
  let ?s = "s\<lparr>position := position s + objectSize s,
             reapableObjects := reapableObjects s - 1,
             objectsFree := objectsFree s - 1\<rparr>"
  have p: "position s = slot s (reaped s)" using assms(1) by (simp add: consistent_def)
  have r: "unat (reapableObjects s - 1) = unat (reapableObjects s) - 1"
    using assms(2) by (simp add: unat_minus_one)
  have r0: "0 < unat (reapableObjects s)" using assms(2) by (simp add: unat_gt_0)
  have rt: "unat (reapableObjects s) \<le> unat (totalObjects s)"
    using assms(1) by (simp add: consistent_def)
  have f: "unat (objectsFree s) = unat (reapableObjects s) + length (freeList s)"
    using assms(1) by (simp add: consistent_def)
  then have "objectsFree s \<noteq> 0" using r0 by (auto simp add: unat_eq_0 [symmetric] simp del: unat_eq_0)
  then have f1: "unat (objectsFree s - 1) = unat (objectsFree s) - 1" by (simp add: unat_minus_one)
  have n: "reaped ?s = Suc (reaped s)" using r r0 rt by (simp add: reaped_def)
  have pos: "position s + objectSize s = slot s (Suc (reaped s))"
    unfolding p by (simp add: slot_def distrib_right)
  have fr: "slot s (reaped s) \<notin> L \<union> set (freeList s) \<union> set (deferred s)"
    using assms by (rule slot_fresh)
  have u: "L \<union> set (freeList s @ deferred s) = slot s ` {..<reaped s}"
    and d: "L \<inter> set (freeList s @ deferred s) = {}"
    and dist: "distinct (freeList s @ deferred s)"
    using assms(1) by (simp_all add: consistent_def)
  have "geometry ?s" using assms(1) by (simp add: consistent_def)
  moreover have "unat (reapableObjects ?s) \<le> unat (totalObjects ?s)" using r rt by simp
  moreover have "position ?s = slot ?s (reaped ?s)" unfolding n using pos by simp
  moreover have "unat (objectsFree ?s) = unat (reapableObjects ?s) + length (freeList ?s)"
    using f f1 r r0 by simp
  moreover have "distinct (freeList ?s @ deferred ?s)" using dist by simp
  moreover have "insert (position s) L \<inter> set (freeList ?s @ deferred ?s) = {}"
    using d fr by (auto simp add: p)
  moreover have "insert (position s) L \<union> set (freeList ?s @ deferred ?s) = slot ?s ` {..<reaped ?s}"
    using u n by (auto simp add: p lessThan_Suc)
  ultimately show ?thesis unfolding consistent_def by blast
qed

lemma consistent_list:
  assumes "consistent s L" "reapableObjects s = 0" "freeList s = e # es"
  shows "consistent (s\<lparr>freeList := es, objectsFree := objectsFree s - 1\<rparr>) (insert e L)"
proof -
  let ?s = "s\<lparr>freeList := es, objectsFree := objectsFree s - 1\<rparr>"
  have f: "unat (objectsFree s) = Suc (length es)" using assms by (simp add: consistent_def)
  then have "objectsFree s \<noteq> 0" by (auto simp add: unat_eq_0 [symmetric] simp del: unat_eq_0)
  then have f1: "unat (objectsFree s - 1) = unat (objectsFree s) - 1" by (simp add: unat_minus_one)
  have u: "L \<union> set (freeList s @ deferred s) = slot s ` {..<reaped s}"
    and d: "L \<inter> set (freeList s @ deferred s) = {}"
    and dist: "distinct (freeList s @ deferred s)"
    and p: "position s = slot s (reaped s)"
    using assms(1) by (simp_all add: consistent_def)
  have "geometry ?s" using assms(1) by (simp add: consistent_def)
  moreover have "unat (reapableObjects ?s) \<le> unat (totalObjects ?s)" using assms(2) by simp
  moreover have "position ?s = slot ?s (reaped ?s)" using p by simp
  moreover have "unat (objectsFree ?s) = unat (reapableObjects ?s) + length (freeList ?s)"
    using f f1 assms(2) by simp
  moreover have "distinct (freeList ?s @ deferred ?s)" using dist assms(3) by simp
  moreover have "insert e L \<inter> set (freeList ?s @ deferred ?s) = {}"
    using d dist assms(3) by auto
  moreover have "insert e L \<union> set (freeList ?s @ deferred ?s) = slot ?s ` {..<reaped ?s}"
    using u assms(3) by auto
  ultimately show ?thesis unfolding consistent_def by blast
qed

text \<open>Every outcome of \<open>malloc\<close> on a superblock in use.\<close>

lemma malloc_cases:
  assumes "consistent s L"
  obtains (reap) "reapableObjects s \<noteq> 0"
      "malloc s = Inr (position s,
           s\<lparr>position := position s + objectSize s,
             reapableObjects := reapableObjects s - 1,
             objectsFree := objectsFree s - 1\<rparr>)"
  | (list) e es where "reapableObjects s = 0" "freeList s = e # es"
      "malloc s = Inr (e, s\<lparr>freeList := es, objectsFree := objectsFree s - 1\<rparr>)"
  | (exhausted) "reapableObjects s = 0" "freeList s = []" "malloc s = Inr (0, s)"
proof (cases "reapableObjects s = 0")
  case False
  then show ?thesis using malloc_reap [OF assms] reap by blast
next
  case True
  show ?thesis
  proof (cases "freeList s")
    case Nil
    then show ?thesis using malloc_exhausted [OF assms True] True exhausted by blast
  next
    case (Cons e es)
    then show ?thesis using malloc_list [OF assms True] True list by blast
  qed
qed

lemma malloc_consistent:
  assumes "consistent s L" "malloc s = Inr (p, s1)"
  shows "consistent s1 (if p = 0 then L else insert p L)"
    and "p \<noteq> 0 \<Longrightarrow> p \<notin> L"
    and "p \<noteq> 0 \<Longrightarrow> \<exists>k < unat (totalObjects s). p = slot s k"
proof -
  have g: "geometry s" using assms(1) by (rule consistent_geometry)
  have "consistent s1 (if p = 0 then L else insert p L) \<and> (p \<noteq> 0 \<longrightarrow> p \<notin> L)
      \<and> (p \<noteq> 0 \<longrightarrow> (\<exists>k < unat (totalObjects s). p = slot s k))"
  proof (cases rule: malloc_cases [OF assms(1)])
    case 1
    have k: "reaped s < unat (totalObjects s)"
      using 1(1) assms(1) by (simp add: reaped_def consistent_def unat_gt_0 [symmetric] del: unat_gt_0)
    have p: "p = slot s (reaped s)" using 1(2) assms by (simp add: consistent_def)
    then have "p \<noteq> 0" using g k by (simp add: slot_nonzero)
    moreover have "p \<notin> L" using slot_fresh [OF assms(1) 1(1)] p by simp
    ultimately show ?thesis using consistent_reap [OF assms(1) 1(1)] 1(2) assms(2) k p by auto
  next
    case (2 e es)
    obtain k where k: "k < unat (totalObjects s)" "e = slot s k"
      using consistent_slots [OF assms(1), of e] 2(2) by auto
    then have "e \<noteq> 0" using g by (simp add: slot_nonzero)
    moreover have "e \<notin> L" using assms(1) 2(2) by (auto simp add: consistent_def)
    ultimately show ?thesis using consistent_list [OF assms(1) 2(1,2)] 2(3) assms(2) k by auto
  next
    case 3
    then show ?thesis using assms by simp
  qed
  then show "consistent s1 (if p = 0 then L else insert p L)"
    and "p \<noteq> 0 \<Longrightarrow> p \<notin> L"
    and "p \<noteq> 0 \<Longrightarrow> \<exists>k < unat (totalObjects s). p = slot s k" by simp_all
qed

section \<open>The in-use bit of a pin table entry\<close>

lemma flag_clear_mask: "e AND 1 = 0 \<Longrightarrow> e AND NOT IN_USE = (e :: addr)"
proof -
  assume a: "e AND 1 = 0"
  have "e = e AND (1 OR NOT 1)" by simp
  also have "\<dots> = (e AND 1) OR (e AND NOT 1)" by (simp only: bit.conj_disj_distrib)
  finally show ?thesis using a by (simp add: IN_USE_def)
qed

lemma mask_flag_clear: "(e AND NOT IN_USE) AND 1 = (0 :: addr)"
  by (simp add: IN_USE_def and.assoc)

lemma set_flag: "(obj OR IN_USE) AND 1 = (1 :: addr)" "obj OR IN_USE \<noteq> (0 :: addr)"
proof -
  show a: "(obj OR IN_USE) AND 1 = (1 :: addr)"
    by (simp add: IN_USE_def bit.conj_disj_distrib2)
  show "obj OR IN_USE \<noteq> 0"
  proof
    assume "obj OR IN_USE = 0"
    then have "(obj OR IN_USE) AND 1 = 0" by simp
    then show False using a by simp
  qed
qed

lemma set_flag_mask: "obj AND 1 = 0 \<Longrightarrow> (obj OR IN_USE) AND NOT IN_USE = (obj :: addr)"
proof -
  assume a: "obj AND 1 = 0"
  have "(obj OR IN_USE) AND NOT IN_USE = obj AND NOT IN_USE"
    by (simp add: IN_USE_def bit.conj_disj_distrib2)
  then show ?thesis using flag_clear_mask [OF a] by simp
qed

section \<open>Release\<close>

lemma slot_zero: "slot s 0 = start s"
  by (simp add: slot_def)

lemma reclaim_consistent:
  assumes "consistent s L" "p \<in> L"
  shows "\<exists>s1. reclaim s p = Inr s1 \<and> consistent s1 (L - {p}) \<and>
           unat (objectsFree s1) = Suc (unat (objectsFree s)) \<and> pinned s1 = pinned s \<and>
           (if unat (objectsFree s) + 1 = unat (totalObjects s)
            then s1 = s\<lparr>freeList := [], objectsFree := totalObjects s,
                        reapableObjects := totalObjects s, position := start s\<rparr>
            else s1 = s\<lparr>freeList := p # freeList s, objectsFree := objectsFree s + 1\<rparr>)"
proof -
  let ?T = "unat (totalObjects s)" and ?r = "unat (reapableObjects s)"
  let ?s1 = "s\<lparr>freeList := p # freeList s, objectsFree := objectsFree s + 1\<rparr>"
  have g: "geometry s" using assms(1) by (rule consistent_geometry)
  have v: "isValid s" and al: "unat (start s) mod 16 = 0" using g by (simp_all add: geometry_def)
  have rt: "?r \<le> ?T" and f: "unat (objectsFree s) = ?r + length (freeList s)"
    and u: "L \<union> set (freeList s @ deferred s) = slot s ` {..<reaped s}"
    and d: "L \<inter> set (freeList s @ deferred s) = {}"
    and dist: "distinct (freeList s @ deferred s)"
    and pos: "position s = slot s (reaped s)"
    using assms(1) by (simp_all add: consistent_def)
  have fin: "finite L" and cnt: "card L + length (freeList s) + length (deferred s) = reaped s"
    using count_slots [OF assms(1)] by simp_all
  have cl: "0 < card L" using fin assms(2) by (auto simp add: card_gt_0_iff)
  have lt: "unat (objectsFree s) < ?T" using cnt cl f rt by (simp add: reaped_def)
  then have "unat (objectsFree s) + 1 < 2 ^ 32" using unat_uint_less [of "totalObjects s"] by simp
  then have f1: "unat (objectsFree s + 1) = Suc (unat (objectsFree s))"
    by (simp add: unat_word_ariths)
  show ?thesis
  proof (cases "unat (objectsFree s) + 1 = ?T")
    case True
    let ?s2 = "s\<lparr>freeList := [], objectsFree := totalObjects s,
                        reapableObjects := totalObjects s, position := start s\<rparr>"
    have eq: "objectsFree s + 1 = totalObjects s" using True f1 by (simp add: word_unat_eq_iff)
    have "card L + length (deferred s) = 1" using True cnt f rt by (simp add: reaped_def)
    then have "card L = 1" and "length (deferred s) = 0" using cl by linarith+
    then have "card L = 1" and D: "deferred s = []" by simp_all
    then have L: "L = {p}" using assms(2) by (auto simp add: card_1_singleton_iff)
    have r1: "reclaim s p = Inr ?s2"
      using eq v align_id [OF al]
      by (simp add: reclaim_def clear_def Let_def FreeSLList_insert_def FreeSLList_clear_def
          isValid_def)
    have "geometry ?s2" using g by (simp add: geometry_def isValid_def)
    moreover have "reaped ?s2 = 0" by (simp add: reaped_def)
    moreover have "deferred ?s2 = []" using D by (simp add: deferred_def)
    moreover have "slot ?s2 0 = start s" by (simp add: slot_def)
    ultimately have "consistent ?s2 (L - {p})" using L by (simp add: consistent_def)
    then show ?thesis using r1 True by simp
  next
    case False
    then have ne: "objectsFree s + 1 \<noteq> totalObjects s" using f1 by (auto simp add: word_unat_eq_iff)
    have r1: "reclaim s p = Inr ?s1"
      using ne by (simp add: reclaim_def Let_def FreeSLList_insert_def)
    have "geometry ?s1" using g by simp
    moreover have "unat (reapableObjects ?s1) \<le> unat (totalObjects ?s1)" using rt by simp
    moreover have "position ?s1 = slot ?s1 (reaped ?s1)" using pos by simp
    moreover have "unat (objectsFree ?s1) = unat (reapableObjects ?s1) + length (freeList ?s1)"
      using f f1 by simp
    moreover have "distinct (freeList ?s1 @ deferred ?s1)" using dist d assms(2) by auto
    moreover have "(L - {p}) \<inter> set (freeList ?s1 @ deferred ?s1) = {}" using d by auto
    moreover have "(L - {p}) \<union> set (freeList ?s1 @ deferred ?s1) = slot ?s1 ` {..<reaped ?s1}"
      using u assms(2) by auto
    ultimately have "consistent ?s1 (L - {p})" unfolding consistent_def by blast
    then show ?thesis using r1 False f1 by simp
  qed
qed

lemma geometry_pinned:
  "length t = length (pinned s) \<Longrightarrow> geometry (s\<lparr>pinned := t\<rparr>) = geometry s"
  by (simp add: geometry_def isValid_def)

lemma deferred_pinned:
  "deferred (s\<lparr>pinned := t\<rparr>) = filter (\<lambda>e. e \<noteq> 0 \<and> e AND 1 = 0) t"
  by (simp add: deferred_def)

text \<open>Replacing the pin table keeps the invariant when the deferred slots stay the same.\<close>

lemma consistent_pinned:
  assumes "consistent s L" "length t = length (pinned s)"
    and "filter (\<lambda>e. e \<noteq> 0 \<and> e AND 1 = 0) t = deferred s"
  shows "consistent (s\<lparr>pinned := t\<rparr>) L"
proof -
  have "deferred (s\<lparr>pinned := t\<rparr>) = deferred s" using assms(3) by (simp add: deferred_pinned)
  moreover have "geometry (s\<lparr>pinned := t\<rparr>)"
    using assms(1,2) by (simp add: geometry_pinned consistent_def)
  ultimately show ?thesis using assms(1) by (simp add: consistent_def)
qed

lemma free_deferred:
  assumes "consistent s L" "p \<in> L"
    and "scan (\<lambda>e. e AND NOT IN_USE = p) (pinned s) 0 = Some i"
  shows "free s p = Inr (s\<lparr>pinned := (pinned s)[i := pinned s ! i AND NOT IN_USE]\<rparr>)"
    and "consistent (s\<lparr>pinned := (pinned s)[i := pinned s ! i AND NOT IN_USE]\<rparr>) (L - {p})"
    and "set (deferred (s\<lparr>pinned := (pinned s)[i := pinned s ! i AND NOT IN_USE]\<rparr>))
           = insert p (set (deferred s))"
proof -
  let ?Q = "\<lambda>e :: addr. e \<noteq> 0 \<and> e AND 1 = 0"
  let ?t = "(pinned s)[i := pinned s ! i AND NOT IN_USE]"
  have g: "geometry s" using assms(1) by (rule consistent_geometry)
  have v: "isValid s" and len: "length (pinned s) = MAX_PINNED" using g by (simp_all add: geometry_def)
  obtain k where k: "k < unat (totalObjects s)" "p = slot s k"
    using consistent_slots [OF assms(1), of p] assms(2) by auto
  have nz: "p \<noteq> 0" unfolding k(2) using g k(1) by (intro slot_nonzero) simp_all
  have al: "p mod Alignment = 0" unfolding k(2) using g k(1) by (rule slot_aligned)
  have i: "i < MAX_PINNED" and m: "pinned s ! i AND NOT IN_USE = p"
    using scan_Some [OF assms(3)] by simp_all
  have il: "i < length (pinned s)" using i len by simp
  have d: "L \<inter> set (freeList s @ deferred s) = {}"
    and dist: "distinct (freeList s @ deferred s)"
    and u: "L \<union> set (freeList s @ deferred s) = slot s ` {..<reaped s}"
    using assms(1) by (simp_all add: consistent_def)
  have pD: "p \<notin> set (deferred s)" and pF: "p \<notin> set (freeList s)" using d assms(2) by auto
  have flag: "pinned s ! i AND 1 \<noteq> 0"
  proof
    assume c: "pinned s ! i AND 1 = 0"
    then have "pinned s ! i = p" using m flag_clear_mask [OF c] by simp
    then have "p \<in> set (deferred s)" using c nz il nth_mem [OF il] by (auto simp add: deferred_def)
    then show False using pD by simp
  qed
  show "free s p = Inr (s\<lparr>pinned := ?t\<rparr>)"
    using al v assms(3) flag by (simp add: free_def)
  have nq: "\<not> ?Q (pinned s ! i)" using flag by simp
  have q: "?Q p" using nz m mask_flag_clear [of "pinned s ! i"] by simp
  have s1: "set (filter ?Q ?t) = insert p (set (filter ?Q (pinned s)))"
    using filter_update_in(1) [of i "pinned s" ?Q p, OF il nq q] m by simp
  have d1: "distinct (filter ?Q ?t)"
    using filter_update_in(2) [of i "pinned s" ?Q p, OF il nq q] m pD dist
    by (simp add: deferred_def)
  show sd: "set (deferred (s\<lparr>pinned := ?t\<rparr>)) = insert p (set (deferred s))"
    using s1 by (simp add: deferred_def)
  have dd: "distinct (deferred (s\<lparr>pinned := ?t\<rparr>))" using d1 by (simp add: deferred_def)
  have "geometry (s\<lparr>pinned := ?t\<rparr>)" using g by (simp add: geometry_pinned)
  moreover have "distinct (freeList s @ deferred (s\<lparr>pinned := ?t\<rparr>))"
    using dist dd sd pF by auto
  moreover have "(L - {p}) \<inter> set (freeList s @ deferred (s\<lparr>pinned := ?t\<rparr>)) = {}"
    using d sd by auto
  moreover have "(L - {p}) \<union> set (freeList s @ deferred (s\<lparr>pinned := ?t\<rparr>)) = slot s ` {..<reaped s}"
    using u sd assms(2) by auto
  ultimately show "consistent (s\<lparr>pinned := ?t\<rparr>) (L - {p})"
    using assms(1) by (simp add: consistent_def)
qed

lemma free_reclaim:
  assumes "consistent s L" "p \<in> L"
    and "scan (\<lambda>e. e AND NOT IN_USE = p) (pinned s) 0 = None"
  shows "free s p = reclaim s p"
proof -
  have g: "geometry s" using assms(1) by (rule consistent_geometry)
  have v: "isValid s" using g by (simp add: geometry_def)
  obtain k where k: "k < unat (totalObjects s)" "p = slot s k"
    using consistent_slots [OF assms(1), of p] assms(2) by auto
  have al: "p mod Alignment = 0" unfolding k(2) using g k(1) by (rule slot_aligned)
  show ?thesis using al v assms(3) by (simp add: free_def)
qed

lemma free_consistent:
  assumes "consistent s L" "p \<in> L"
  shows "\<exists>s1. free s p = Inr s1 \<and> consistent s1 (L - {p}) \<and>
           set (deferred s) \<subseteq> set (deferred s1)"
proof (cases "scan (\<lambda>e. e AND NOT IN_USE = p) (pinned s) 0")
  case None
  obtain s1 where s1: "reclaim s p = Inr s1" "consistent s1 (L - {p})" "pinned s1 = pinned s"
    using reclaim_consistent [OF assms] by blast
  then have "deferred s1 = deferred s" by (simp add: deferred_def)
  then show ?thesis using s1 free_reclaim [OF assms None] by simp
next
  case (Some i)
  show ?thesis using free_deferred [OF assms Some] by auto
qed

section \<open>Pin and unpin\<close>

lemma pin_result:
  assumes "isValid s" "normalize s p = Inr obj"
  shows "pin s p =
     (case scan (\<lambda>e. e = 0) (pinned s) 0 of
        Some i \<Rightarrow> Inr (s\<lparr>pinned := (pinned s)[i := obj OR IN_USE]\<rparr>)
      | None \<Rightarrow> Inl AssertionFailed)"
  using assms by (simp add: pin_def)

lemma normalize_total: "isValid s \<Longrightarrow> \<exists>obj. normalize s p = Inr obj"
  by (simp add: normalize_def Let_def)

lemma pin_consistent:
  assumes "consistent s L" "pin s p = Inr s1"
  shows "consistent s1 L" and "deferred s1 = deferred s"
proof -
  have g: "geometry s" using assms(1) by (rule consistent_geometry)
  have v: "isValid s" and len: "length (pinned s) = MAX_PINNED" using g by (simp_all add: geometry_def)
  obtain obj where obj: "normalize s p = Inr obj" using normalize_total [OF v] by blast
  obtain i where i: "scan (\<lambda>e. e = 0) (pinned s) 0 = Some i"
    and s1: "s1 = s\<lparr>pinned := (pinned s)[i := obj OR IN_USE]\<rparr>"
    using assms(2) pin_result [OF v obj] by (auto split: option.splits)
  have il: "i < length (pinned s)" and z: "pinned s ! i = 0"
    using scan_Some [OF i] len by simp_all
  have f: "filter (\<lambda>e. e \<noteq> 0 \<and> e AND 1 = 0) ((pinned s)[i := obj OR IN_USE]) = deferred s"
    unfolding deferred_def using il z set_flag(1) [of obj]
    by (intro filter_update_out) simp_all
  show "consistent s1 L" unfolding s1 using assms(1) _ f by (rule consistent_pinned) simp
  show "deferred s1 = deferred s" unfolding s1 using f by (simp add: deferred_pinned)
qed

lemma unat_addr_less: "unat (a :: addr) < 2 ^ 64"
  using unsigned_less [of a] by simp

lemma in_slots_slot:
  assumes "geometry s" "in_slots s p"
  shows "\<exists>k d. k < unat (totalObjects s) \<and> unat d < unat (objectSize s) \<and> p = slot s k + d"
proof -
  let ?S = "unat (start s)" and ?z = "unat (objectSize s)" and ?T = "unat (totalObjects s)"
  define k where "k = (unat p - ?S) div ?z"
  define d where "d = (unat p - ?S) mod ?z"
  have z: "0 < ?z" using assms(1) by (simp add: geometry_def)
  have lo: "?S \<le> unat p" and hi: "unat p - ?S < ?T * ?z"
    using assms(2) by (auto simp add: in_slots_def)
  have kT: "k < ?T" unfolding k_def using hi z by (simp add: less_mult_imp_div_less)
  have dz: "d < ?z" unfolding d_def using z by simp
  have "d < 2 ^ 64" using dz unat_addr_less [of "objectSize s"] by simp
  then have ud: "unat (of_nat d :: addr) = d" by (simp add: unat_of_nat)
  have sum: "?S + k * ?z + d = unat p" unfolding k_def d_def using lo by simp
  have "unat (slot s k + of_nat d) = (unat (slot s k) + d) mod 2 ^ 64"
    by (simp add: unat_word_ariths ud)
  also have "\<dots> = (unat p) mod 2 ^ 64"
    using unat_slot [OF assms(1), of k] kT sum by simp
  also have "\<dots> = unat p" using unat_addr_less [of p] by simp
  finally have "p = slot s k + of_nat d" by (simp add: word_unat_eq_iff)
  then show ?thesis using kT dz ud by metis
qed

lemma reclaim_pinned:
  "reclaim (s\<lparr>pinned := t\<rparr>) p =
     (case reclaim s p of Inl f \<Rightarrow> Inl f | Inr s1 \<Rightarrow> Inr (s1\<lparr>pinned := t\<rparr>))"
  by (simp add: reclaim_def clear_def Let_def isValid_def)

lemma reclaim_keeps_pinned: "reclaim s p = Inr s1 \<Longrightarrow> pinned s1 = pinned s"
  by (auto simp add: reclaim_def clear_def Let_def split: if_splits)

lemma unpin_result:
  assumes "isValid s" "normalize s p = Inr obj"
  shows "unpin s p =
     (case scan (\<lambda>e. e AND NOT IN_USE = obj) (pinned s) 0 of
        Some i \<Rightarrow>
          (case (if pinned s ! i AND IN_USE = 0 then reclaim s obj else Inr s) of
             Inl f \<Rightarrow> Inl f
           | Inr s1 \<Rightarrow> Inr (s1\<lparr>pinned := (pinned s1)[i := 0]\<rparr>))
      | None \<Rightarrow> Inl AssertionFailed)"
  using assms by (simp add: unpin_def)

text \<open>
  \<open>unpin\<close> of a slot whose release was deferred: the entry found holds the slot address
  with the in-use bit clear, the slot is reclaimed and the entry zeroed.
\<close>

lemma unpin_deferred:
  assumes "consistent s L" "normalize s p = Inr obj" "obj \<noteq> 0"
    and "scan (\<lambda>e. e AND NOT IN_USE = obj) (pinned s) 0 = Some i"
    and "pinned s ! i AND 1 = 0"
  shows "\<exists>s1. reclaim (s\<lparr>pinned := (pinned s)[i := 0]\<rparr>) obj = Inr s1 \<and> unpin s p = Inr s1 \<and>
           consistent (s\<lparr>pinned := (pinned s)[i := 0]\<rparr>) (insert obj L) \<and> obj \<notin> L \<and>
           consistent s1 L"
proof -
  let ?Q = "\<lambda>e :: addr. e \<noteq> 0 \<and> e AND 1 = 0"
  let ?t = "(pinned s)[i := 0]"
  let ?s0 = "s\<lparr>pinned := ?t\<rparr>"
  have g: "geometry s" using assms(1) by (rule consistent_geometry)
  have v: "isValid s" and len: "length (pinned s) = MAX_PINNED" using g by (simp_all add: geometry_def)
  have il: "i < length (pinned s)" and m: "pinned s ! i AND NOT IN_USE = obj"
    using scan_Some [OF assms(4)] len by simp_all
  have e: "pinned s ! i = obj" using m flag_clear_mask [OF assms(5)] by simp
  have q: "?Q (pinned s ! i)" using e assms(3,5) by simp
  have d: "L \<inter> set (freeList s @ deferred s) = {}"
    and dist: "distinct (freeList s @ deferred s)"
    and u: "L \<union> set (freeList s @ deferred s) = slot s ` {..<reaped s}"
    using assms(1) by (simp_all add: consistent_def)
  have oD: "obj \<in> set (deferred s)" using q e nth_mem [OF il] by (auto simp add: deferred_def)
  then have oL: "obj \<notin> L" and oF: "obj \<notin> set (freeList s)" using d dist by auto
  have dD: "distinct (filter ?Q (pinned s))" using dist by (simp add: deferred_def)
  have sd: "set (deferred ?s0) = set (deferred s) - {obj}"
    using filter_update_del(1) [of i "pinned s" ?Q 0, OF il q _ dD] e
    by (simp add: deferred_def)
  have dd: "distinct (deferred ?s0)"
    using filter_update_del(2) [of i "pinned s" ?Q 0, OF il q _ dD] by (simp add: deferred_def)
  have "geometry ?s0" using g by (simp add: geometry_pinned)
  moreover have "distinct (freeList s @ deferred ?s0)" using dist dd sd by auto
  moreover have "insert obj L \<inter> set (freeList s @ deferred ?s0) = {}" using d sd oF by auto
  moreover have "insert obj L \<union> set (freeList s @ deferred ?s0) = slot s ` {..<reaped s}"
    using u sd oD by auto
  ultimately have c0: "consistent ?s0 (insert obj L)" using assms(1) by (simp add: consistent_def)
  obtain s1 where s1: "reclaim ?s0 obj = Inr s1" "consistent s1 (insert obj L - {obj})"
    using reclaim_consistent [OF c0, of obj] by auto
  obtain sa where sa: "reclaim s obj = Inr sa" "s1 = sa\<lparr>pinned := ?t\<rparr>"
    using s1(1) by (auto simp add: reclaim_pinned split: sum.splits)
  have "pinned sa = pinned s" using sa(1) by (rule reclaim_keeps_pinned)
  then have "unpin s p = Inr s1"
    using unpin_result [OF v assms(2)] assms(4,5) sa by (simp add: IN_USE_def)
  then show ?thesis using s1 c0 oL by auto
qed

lemma unpin_pinned:
  assumes "consistent s L" "normalize s p = Inr obj"
    and "scan (\<lambda>e. e AND NOT IN_USE = obj) (pinned s) 0 = Some i"
    and "pinned s ! i AND 1 \<noteq> 0"
  shows "unpin s p = Inr (s\<lparr>pinned := (pinned s)[i := 0]\<rparr>)"
    and "consistent (s\<lparr>pinned := (pinned s)[i := 0]\<rparr>) L"
    and "deferred (s\<lparr>pinned := (pinned s)[i := 0]\<rparr>) = deferred s"
proof -
  have g: "geometry s" using assms(1) by (rule consistent_geometry)
  have v: "isValid s" and len: "length (pinned s) = MAX_PINNED" using g by (simp_all add: geometry_def)
  have il: "i < length (pinned s)" using scan_Some [OF assms(3)] len by simp
  show "unpin s p = Inr (s\<lparr>pinned := (pinned s)[i := 0]\<rparr>)"
    using unpin_result [OF v assms(2)] assms(3,4) by (simp add: IN_USE_def)
  have f: "filter (\<lambda>e. e \<noteq> 0 \<and> e AND 1 = 0) ((pinned s)[i := 0]) = deferred s"
    unfolding deferred_def using il assms(4) by (intro filter_update_out) simp_all
  show "consistent (s\<lparr>pinned := (pinned s)[i := 0]\<rparr>) L"
    using assms(1) _ f by (rule consistent_pinned) simp
  show "deferred (s\<lparr>pinned := (pinned s)[i := 0]\<rparr>) = deferred s"
    using f by (simp add: deferred_pinned)
qed

lemma unpin_consistent:
  assumes "consistent s L" "in_slots s p" "unpin s p = Inr s1"
  shows "consistent s1 L"
proof -
  have g: "geometry s" using assms(1) by (rule consistent_geometry)
  have v: "isValid s" using g by (simp add: geometry_def)
  obtain k d where kd: "k < unat (totalObjects s)" "unat d < unat (objectSize s)" "p = slot s k + d"
    using in_slots_slot [OF g assms(2)] by blast
  have n: "normalize s p = Inr (slot s k)" unfolding kd(3) using g kd(1,2) by (rule normalize_slot)
  have nz: "slot s k \<noteq> 0" using g kd(1) by (intro slot_nonzero) simp_all
  obtain i where i: "scan (\<lambda>e. e AND NOT IN_USE = slot s k) (pinned s) 0 = Some i"
    using assms(3) unpin_result [OF v n] by (auto split: option.splits)
  show ?thesis
  proof (cases "pinned s ! i AND 1 = 0")
    case True
    then show ?thesis using unpin_deferred [OF assms(1) n nz i True] assms(3) by auto
  next
    case False
    then show ?thesis using unpin_pinned [OF assms(1) n i False] assms(3) by auto
  qed
qed

section \<open>Construction\<close>

lemma aligned_unat:
  fixes v :: addr
  assumes "align Alignment v = v"
  shows "unat v mod 16 = 0"
proof -
  have "v AND 15 = ((v + 15) AND NOT 15) AND 15"
    using assms by (simp add: align_def Alignment_def)
  also have "\<dots> = 0" by (simp add: and.assoc)
  finally have "v AND mask 4 = 0" by (simp add: mask_eq_exp_minus_1)
  then have "v mod 16 = 0" using word_mod_2p_is_mask [of 4 v] by simp
  then have "unat (v mod 16) = 0" by simp
  then show ?thesis by (simp add: unat_mod)
qed

lemma constructed_fields:
  assumes "ZeusSuperblockHeaderHelper e sz bufferSize st = Inr s"
  shows "this_ptr s = env_this e" "magicNumber s = MAGIC_NUMBER XOR env_this e"
    "objectSize s = sz"
    "objectSizeIsPowerOfTwo s = (sz AND (sz - 1) = 0 \<and> sz \<noteq> 0)"
    "totalObjects s = ucast (bufferSize div sz)"
    "reapableObjects s = totalObjects s" "objectsFree s = totalObjects s"
    "start s = st" "position s = st"
    "pinned s = map (env_pinned e) [0..<MAX_PINNED]"
    "mr s = (if env_pd e \<noteq> 0 then env_reg_mr e else 0)"
    "freeList s = []"
    "sz \<noteq> 0" "align Alignment st = st" "Alignment \<le> sz"
    "totalObjects s = 1 \<or> sz mod Alignment = 0"
  using assms
  by (auto simp add: ZeusSuperblockHeaderHelper_def Let_def split: if_splits)

lemma constructed_total:
  assumes "ZeusSuperblockHeaderHelper e sz bufferSize st = Inr s"
  shows "unat (totalObjects s) * unat (objectSize s) \<le> unat bufferSize"
proof -
  have t: "totalObjects s = ucast (bufferSize div sz)" and z: "objectSize s = sz"
    using constructed_fields [OF assms] by simp_all
  have "unat (totalObjects s) \<le> unat (bufferSize div sz)"
    unfolding t by (simp add: unsigned_ucast_eq)
  also have "\<dots> = unat bufferSize div unat sz" by (simp add: unat_div)
  finally have "unat (totalObjects s) * unat sz \<le> (unat bufferSize div unat sz) * unat sz"
    by (rule mult_le_mono1)
  also have "\<dots> \<le> unat bufferSize" by simp
  finally show ?thesis using z by simp
qed

lemma constructed_consistent:
  assumes "ZeusSuperblockHeaderHelper e sz bufferSize st = Inr s" "fresh e bufferSize st"
  shows "consistent s {}"
proof -
  note f = constructed_fields [OF assms(1)]
  have st: "st \<noteq> 0" and fit: "unat st + unat bufferSize < 2 ^ 64"
    and zero: "\<forall>i \<in> set [0..<MAX_PINNED]. env_pinned e i = 0"
    using assms(2) by (simp_all add: fresh_def list_all_iff)
  have "isValid s" using f(1,2) by (simp add: isValid_def)
  moreover have "16 \<le> unat (objectSize s)"
    using f(15) f(3) by (simp add: word_le_nat_alt Alignment_def)
  moreover have "start s \<noteq> 0" using st f(8) by simp
  moreover have "unat (start s) mod 16 = 0" using aligned_unat [OF f(14)] f(8) by simp
  moreover have "unat (totalObjects s) = 1 \<or> unat (objectSize s) mod 16 = 0"
  proof (cases "totalObjects s = 1")
    case True
    then show ?thesis by simp
  next
    case False
    then have "sz mod Alignment = 0" using f(16) by simp
    then have "unat (sz mod 16) = 0" by (simp add: Alignment_def)
    then show ?thesis using f(3) by (simp add: unat_mod)
  qed
  moreover have "unat (start s) + unat (totalObjects s) * unat (objectSize s) < 2 ^ 64"
    using constructed_total [OF assms(1)] fit f(8) by simp
  moreover have "objectSizeIsPowerOfTwo s =
      (objectSize s AND (objectSize s - 1) = 0 \<and> objectSize s \<noteq> 0)"
    using f(3,4) by simp
  moreover have "length (pinned s) = MAX_PINNED" using f(10) by simp
  ultimately have g: "geometry s" unfolding geometry_def by blast
  have "deferred s = []" using zero f(10) by (auto simp add: deferred_def filter_empty_conv)
  moreover have "reaped s = 0" using f(6) by (simp add: reaped_def)
  moreover have "position s = slot s 0" using f(8,9) by (simp add: slot_def)
  ultimately show ?thesis using g f(6,7,12) by (simp add: consistent_def)
qed

section \<open>Runs keep the invariant\<close>

lemma step_consistent:
  assumes "consistent s L" "step once c (s, L) = Inr (s1, L1)"
  shows "consistent s1 L1"
proof (cases c)
  case Allocate
  then obtain p where "malloc s = Inr (p, s1)" "L1 = (if p = 0 then L else insert p L)"
    using assms(2) by (auto split: sum.splits)
  then show ?thesis using malloc_consistent(1) [OF assms(1)] by simp
next
  case (Release p)
  then have p: "p \<in> L" "free s p = Inr s1" "L1 = L - {p}"
    using assms(2) by (auto split: sum.splits if_splits)
  then show ?thesis using free_consistent [OF assms(1) p(1)] by auto
next
  case (Pin p)
  then have "pin s p = Inr s1" "L1 = L"
    using assms(2) by (auto split: sum.splits if_splits)
  then show ?thesis using pin_consistent(1) [OF assms(1)] by simp
next
  case (Unpin p)
  then have "in_slots s p" "unpin s p = Inr s1" "L1 = L"
    using assms(2) by (auto split: sum.splits if_splits)
  then show ?thesis using unpin_consistent [OF assms(1)] by simp
qed

lemma run_consistent:
  "consistent s L \<Longrightarrow> run once cs (s, L) = Inr (s1, L1) \<Longrightarrow> consistent s1 L1"
proof (induction cs arbitrary: s L)
  case Nil
  then show ?case by simp
next
  case (Cons c cs)
  then obtain s2 L2 where a: "step once c (s, L) = Inr (s2, L2)"
    and b: "run once cs (s2, L2) = Inr (s1, L1)"
    by (auto split: sum.splits)
  have "consistent s2 L2" using Cons.prems(1) a by (rule step_consistent)
  then show ?case using b by (rule Cons.IH)
qed

section \<open>The small superblock\<close>

lemma construct_hdr0: "ZeusSuperblockHeaderHelper env0 64 256 0x2000 = Inr hdr0"
  by (simp add: ZeusSuperblockHeaderHelper_def env0_def hdr0_def Let_def align_def Alignment_def
      MAX_PINNED_def map_replicate_const)

lemma fresh_env0: "fresh env0 256 0x2000"
  by (simp add: fresh_def env0_def list_all_iff)

lemma malloc_hdr0: "malloc hdr0 = Inr (0x2000, hdr0\<lparr>position := 0x2040, reapableObjects := 3, objectsFree := 3\<rparr>)"
  by (simp add: malloc_def reapAlloc_def getSize_def isValid_def hdr0_def Let_def Alignment_def)

section \<open>Fields no operation writes\<close>

lemma malloc_static:
  assumes "malloc s = Inr (p, s1)"
  shows "this_ptr s1 = this_ptr s \<and> magicNumber s1 = magicNumber s \<and> mr s1 = mr s \<and>
         objectSize s1 = objectSize s \<and> totalObjects s1 = totalObjects s \<and> start s1 = start s \<and>
         pinned s1 = pinned s"
  using assms
  by (auto simp add: malloc_def reapAlloc_def freeListAlloc_def Let_def
      split: if_splits sum.splits prod.splits)

lemma reclaim_static:
  assumes "reclaim s p = Inr s1"
  shows "this_ptr s1 = this_ptr s \<and> magicNumber s1 = magicNumber s \<and> mr s1 = mr s \<and>
         objectSize s1 = objectSize s \<and> totalObjects s1 = totalObjects s \<and> start s1 = start s \<and>
         pinned s1 = pinned s"
  using assms
  by (auto simp add: reclaim_def clear_def Let_def split: if_splits)

lemma free_static:
  assumes "free s p = Inr s1"
  shows "this_ptr s1 = this_ptr s \<and> magicNumber s1 = magicNumber s \<and> mr s1 = mr s \<and>
         objectSize s1 = objectSize s \<and> totalObjects s1 = totalObjects s \<and> start s1 = start s"
proof (cases "scan (\<lambda>e. e AND NOT IN_USE = p) (pinned s) 0")
  case None
  then have "reclaim s p = Inr s1" using assms by (simp add: free_def split: if_splits)
  then show ?thesis using reclaim_static by blast
next
  case (Some i)
  then show ?thesis using assms by (auto simp add: free_def split: if_splits)
qed

lemma pin_static:
  assumes "pin s p = Inr s1"
  shows "this_ptr s1 = this_ptr s \<and> magicNumber s1 = magicNumber s \<and> mr s1 = mr s \<and>
         objectSize s1 = objectSize s \<and> totalObjects s1 = totalObjects s \<and> start s1 = start s"
  using assms
  by (auto simp add: pin_def split: if_splits sum.splits option.splits)

lemma unpin_static:
  assumes "unpin s p = Inr s1"
  shows "this_ptr s1 = this_ptr s \<and> magicNumber s1 = magicNumber s \<and> mr s1 = mr s \<and>
         objectSize s1 = objectSize s \<and> totalObjects s1 = totalObjects s \<and> start s1 = start s"
proof -
  have v: "isValid s" using assms by (auto simp add: unpin_def split: if_splits)
  obtain obj where obj: "normalize s p = Inr obj" using normalize_total [OF v] by blast
  obtain i where i: "scan (\<lambda>e. e AND NOT IN_USE = obj) (pinned s) 0 = Some i"
    using assms unpin_result [OF v obj] by (auto split: option.splits)
  show ?thesis
  proof (cases "pinned s ! i AND IN_USE = 0")
    case True
    then obtain s2 where "reclaim s obj = Inr s2" "s1 = s2\<lparr>pinned := (pinned s2)[i := 0]\<rparr>"
      using assms unpin_result [OF v obj] i by (auto split: sum.splits)
    then show ?thesis using reclaim_static [of s obj s2] by simp
  next
    case False
    then show ?thesis using assms unpin_result [OF v obj] i by auto
  qed
qed

lemma step_static:
  assumes "step once c (s, L) = Inr (s1, L1)"
  shows "this_ptr s1 = this_ptr s \<and> magicNumber s1 = magicNumber s \<and> mr s1 = mr s \<and>
         objectSize s1 = objectSize s \<and> totalObjects s1 = totalObjects s \<and> start s1 = start s"
proof (cases c)
  case Allocate
  then show ?thesis using assms malloc_static by (auto split: sum.splits)
next
  case (Release p)
  then show ?thesis using assms free_static by (auto split: sum.splits if_splits)
next
  case (Pin p)
  then show ?thesis using assms pin_static by (auto split: sum.splits if_splits)
next
  case (Unpin p)
  then show ?thesis using assms unpin_static by (auto split: sum.splits if_splits)
qed

lemma run_static:
  "run once cs (s, L) = Inr (s1, L1) \<Longrightarrow>
     this_ptr s1 = this_ptr s \<and> magicNumber s1 = magicNumber s \<and> mr s1 = mr s \<and>
     objectSize s1 = objectSize s \<and> totalObjects s1 = totalObjects s \<and> start s1 = start s"
proof (induction cs arbitrary: s L)
  case Nil
  then show ?case by simp
next
  case (Cons c cs)
  then obtain s2 L2 where a: "step once c (s, L) = Inr (s2, L2)"
    and b: "run once cs (s2, L2) = Inr (s1, L1)"
    by (auto split: sum.splits)
  show ?case using step_static [OF a] Cons.IH [OF b] by simp
qed

section \<open>Zero capacity and destruction\<close>

lemma malloc_n_exhausted:
  assumes "malloc s = Inr (0, s)"
  shows "malloc_n n s = Inr (replicate n 0, s)"
  using assms by (induction n) simp_all

text \<open>
  C10 (zero capacity). A superblock constructed with \<open>bufferSize < objectSize\<close> on a non-null
  buffer has \<open>totalObjects\<close>, \<open>objectsFree\<close> and \<open>reapableObjects\<close> all zero, and any number of
  successive \<open>malloc\<close> calls all return the null pointer, without a fatal condition and
  without changing the header.
\<close>

theorem zero_capacity:
  assumes "ZeusSuperblockHeaderHelper e sz bufferSize st = Inr s"
    and "bufferSize < sz" and "st \<noteq> 0"
  shows "totalObjects s = 0 \<and> objectsFree s = 0 \<and> reapableObjects s = 0 \<and>
         malloc_n n s = Inr (replicate n 0, s)"
proof -
  note f = constructed_fields [OF assms(1)]
  have "unat (bufferSize div sz) = 0"
    using assms(2) by (simp add: unat_div word_less_nat_alt)
  then have "bufferSize div sz = 0" by (simp add: unat_eq_0)
  then have t: "totalObjects s = 0" using f(5) by simp
  have v: "isValid s" using f(1,2) by (simp add: isValid_def)
  have "s\<lparr>freeList := []\<rparr> = s" using f(12) by simp
  then have "malloc s = Inr (0, s)"
    using v t f(6,9,12) assms(3)
    by (simp add: malloc_def reapAlloc_def freeListAlloc_def FreeSLList_get_def Let_def)
  then have "malloc_n n s = Inr (replicate n 0, s)" by (rule malloc_n_exhausted)
  then show ?thesis using t f(6,7) by simp
qed

theorem zero_capacity_witness:
  "ZeusSuperblockHeaderHelper env0 64 32 0x2000 = Inr hdr_empty \<and> (32 :: addr) < 64 \<and>
   (0x2000 :: addr) \<noteq> 0 \<and>
   totalObjects hdr_empty = 0 \<and> objectsFree hdr_empty = 0 \<and> reapableObjects hdr_empty = 0 \<and>
   malloc_n 3 hdr_empty = Inr ([0, 0, 0], hdr_empty)"
proof -
  have c: "ZeusSuperblockHeaderHelper env0 64 32 0x2000 = Inr hdr_empty"
    by (simp add: ZeusSuperblockHeaderHelper_def env0_def hdr_empty_def Let_def align_def
        Alignment_def MAX_PINNED_def map_replicate_const)
  have l: "(32 :: addr) < 64" and n: "(0x2000 :: addr) \<noteq> 0" by simp_all
  have r: "replicate 3 (0 :: addr) = [0, 0, 0]" by (simp add: numeral_3_eq_3)
  show ?thesis using zero_capacity [OF c l n, of 3] c r by simp
qed

text \<open>
  C8 (unconditional deregistration). When \<open>rdma_get_pd()\<close> returned null at construction the
  handle \<open>_mr\<close> stays null, no operation ever writes it, and the destructor, after
  \<open>clear()\<close>, still calls \<open>ibv_dereg_mr\<close> on it: the call is made with the null handle.
\<close>

theorem unconditional_deregistration:
  assumes "ZeusSuperblockHeaderHelper e sz bufferSize st = Inr s" and "env_pd e = 0"
    and "run once cs (s, {}) = Inr (s1, L1)"
  shows "mr s = 0 \<and> mr s1 = 0 \<and>
         ZeusSuperblockHeaderHelper_dtor s1 =
           Inr (s1\<lparr>freeList := [], objectsFree := totalObjects s1,
                   reapableObjects := totalObjects s1,
                   position := align Alignment (start s1)\<rparr>, [ibv_dereg_mr 0])"
proof -
  note f = constructed_fields [OF assms(1)]
  have m: "mr s = 0" using f(11) assms(2) by simp
  have "isValid s" using f(1,2) by (simp add: isValid_def)
  then have v: "isValid s1" and m1: "mr s1 = 0"
    using run_static [OF assms(3)] m by (simp_all add: isValid_def)
  show ?thesis using m m1 v
    by (simp add: ZeusSuperblockHeaderHelper_dtor_def clear_def FreeSLList_clear_def)
qed

theorem unconditional_deregistration_witness:
  "ZeusSuperblockHeaderHelper env0 64 256 0x2000 = Inr hdr0 \<and> env_pd env0 = 0 \<and>
   run False [] (hdr0, {}) = Inr (hdr0, {}) \<and> mr hdr0 = 0 \<and>
   ZeusSuperblockHeaderHelper_dtor hdr0 =
     Inr (hdr0\<lparr>freeList := [], objectsFree := totalObjects hdr0,
               reapableObjects := totalObjects hdr0,
               position := align Alignment (start hdr0)\<rparr>, [ibv_dereg_mr 0])"
proof -
  have p: "env_pd env0 = 0" by (simp add: env0_def)
  have r: "run False [] (hdr0, {}) = Inr (hdr0, {})" by simp
  show ?thesis using unconditional_deregistration [OF construct_hdr0 p r] construct_hdr0 p by simp
qed

section \<open>Filling the pin table\<close>

lemma filter_update_length:
  assumes "i < length t" "Q (t ! i)" "\<not> Q v"
  shows "Suc (length (filter Q (t[i := v]))) = length (filter Q t)"
proof -
  have "t = take i t @ t ! i # drop (Suc i) t" using assms(1) by (rule id_take_nth_drop)
  then have a: "filter Q t = filter Q (take i t) @ t ! i # filter Q (drop (Suc i) t)"
    using assms(2) by (metis filter.simps(2) filter_append)
  have b: "filter Q (t[i := v]) = filter Q (take i t) @ filter Q (drop (Suc i) t)"
    using assms(1,3) by (simp add: upd_conv_take_nth_drop)
  show ?thesis unfolding a b by simp
qed

lemma pin_fills:
  assumes "length (pinned s) = MAX_PINNED" "pin s p = Inr s1"
  shows "isValid s1" "length (pinned s1) = MAX_PINNED"
    "Suc (length (filter (\<lambda>e. e = 0) (pinned s1))) = length (filter (\<lambda>e. e = 0) (pinned s))"
proof -
  have v: "isValid s" using assms(2) by (auto simp add: pin_def split: if_splits)
  obtain obj where obj: "normalize s p = Inr obj" using normalize_total [OF v] by blast
  obtain i where i: "scan (\<lambda>e. e = 0) (pinned s) 0 = Some i"
    and s1: "s1 = s\<lparr>pinned := (pinned s)[i := obj OR IN_USE]\<rparr>"
    using assms(2) pin_result [OF v obj] by (auto split: option.splits)
  have il: "i < length (pinned s)" and z: "pinned s ! i = 0"
    using scan_Some [OF i] assms(1) by simp_all
  show "isValid s1" using v s1 by (simp add: isValid_def)
  show "length (pinned s1) = MAX_PINNED" using assms(1) s1 by simp
  show "Suc (length (filter (\<lambda>e. e = 0) (pinned s1))) = length (filter (\<lambda>e. e = 0) (pinned s))"
    unfolding s1 using filter_update_length [of i "pinned s" "\<lambda>e. e = 0" "obj OR IN_USE"]
      il z set_flag(2) [of obj] by simp
qed

lemma pin_fails:
  assumes "isValid s" "scan (\<lambda>e. e = 0) (pinned s) 0 = None"
  shows "pin s p = Inl AssertionFailed"
proof -
  obtain obj where obj: "normalize s p = Inr obj" using normalize_total [OF assms(1)] by blast
  show ?thesis using pin_result [OF assms(1) obj] assms(2) by simp
qed

lemma pins_overflow:
  "isValid s \<Longrightarrow> length (pinned s) = MAX_PINNED \<Longrightarrow>
   length (filter (\<lambda>e. e = 0) (pinned s)) < length ps \<Longrightarrow>
   run False (map Pin ps) (s, L) = Inl (Fatal AssertionFailed)"
proof (induction ps arbitrary: s)
  case Nil
  then show ?case by simp
next
  case (Cons p ps)
  show ?case
  proof (cases "pin s p")
    case (Inl f)
    have "f = AssertionFailed"
    proof (cases "scan (\<lambda>e. e = 0) (pinned s) 0")
      case None
      then show ?thesis using pin_fails [OF Cons.prems(1) None, of p] Inl by simp
    next
      case (Some i)
      obtain obj where obj: "normalize s p = Inr obj"
        using normalize_total [OF Cons.prems(1)] by blast
      show ?thesis using pin_result [OF Cons.prems(1) obj] Some Inl by simp
    qed
    then show ?thesis using Inl by simp
  next
    case (Inr s1)
    note f = pin_fills [OF Cons.prems(2) Inr]
    have "length (filter (\<lambda>e. e = 0) (pinned s1)) < length ps"
      using f(3) Cons.prems(3) by simp
    then have "run False (map Pin ps) (s1, L) = Inl (Fatal AssertionFailed)"
      using f(1,2) by (intro Cons.IH)
    then show ?thesis using Inr by simp
  qed
qed

text \<open>
  C7 (pin capacity). On a valid header \<open>pin ptr\<close> writes \<open>normalize ptr\<close> with the in-use bit
  set into the first entry of the pin table that is zero; when none of the \<open>MAX_PINNED\<close>
  entries is zero it ends in the fatal assertion; and pinning more than \<open>MAX_PINNED\<close>
  pointers in a row, whatever they are, ends in the fatal assertion.
\<close>

theorem pin_capacity:
  assumes "isValid s" and "normalize s ptr = Inr obj" and "length (pinned s) = MAX_PINNED"
  shows "(\<forall>i. i < MAX_PINNED \<and> pinned s ! i = 0 \<and> (\<forall>j < i. pinned s ! j \<noteq> 0) \<longrightarrow>
            pin s ptr = Inr (s\<lparr>pinned := (pinned s)[i := obj OR IN_USE]\<rparr>) \<and>
            (obj OR IN_USE) AND IN_USE = IN_USE) \<and>
         ((\<forall>i < MAX_PINNED. pinned s ! i \<noteq> 0) \<longrightarrow> pin s ptr = Inl AssertionFailed) \<and>
         (\<forall>ps. MAX_PINNED < length ps \<longrightarrow>
            run False (map Pin ps) (s, L) = Inl (Fatal AssertionFailed))"
proof (intro conjI allI impI)
  fix i
  assume a: "i < MAX_PINNED \<and> pinned s ! i = 0 \<and> (\<forall>j < i. pinned s ! j \<noteq> 0)"
  then obtain j where j: "scan (\<lambda>e. e = 0) (pinned s) 0 = Some j"
    using scan_found [of i "\<lambda>e. e = 0" "pinned s"] by auto
  have "j = i"
  proof (rule ccontr)
    assume "j \<noteq> i"
    then consider "j < i" | "i < j" by linarith
    then show False
    proof cases
      case 1
      then show ?thesis using a scan_Some [OF j] by auto
    next
      case 2
      then show ?thesis using a scan_Some [OF j] by auto
    qed
  qed
  then show "pin s ptr = Inr (s\<lparr>pinned := (pinned s)[i := obj OR IN_USE]\<rparr>)"
    using pin_result [OF assms(1,2)] j by simp
  show "(obj OR IN_USE) AND IN_USE = IN_USE" using set_flag(1) [of obj] by (simp add: IN_USE_def)
next
  assume a: "\<forall>i < MAX_PINNED. pinned s ! i \<noteq> 0"
  have "scan (\<lambda>e. e = 0) (pinned s) 0 = None"
  proof (cases "scan (\<lambda>e. e = 0) (pinned s) 0")
    case None
    then show ?thesis .
  next
    case (Some j)
    then show ?thesis using scan_Some [OF Some] a by auto
  qed
  then show "pin s ptr = Inl AssertionFailed" by (rule pin_fails [OF assms(1)])
next
  fix ps :: "addr list"
  assume "MAX_PINNED < length ps"
  moreover have "length (filter (\<lambda>e. e = 0) (pinned s)) \<le> MAX_PINNED"
    using length_filter_le [of "\<lambda>e. e = 0" "pinned s"] assms(3) by simp
  ultimately have "length (filter (\<lambda>e. e = 0) (pinned s)) < length ps" by simp
  then show "run False (map Pin ps) (s, L) = Inl (Fatal AssertionFailed)"
    using assms(1,3) by (intro pins_overflow)
qed

lemma hdr0_valid: "isValid hdr0"
  by (simp add: isValid_def hdr0_def)

lemma hdr_full_valid: "isValid hdr_full"
  by (simp add: isValid_def hdr0_def hdr_full_def)

theorem pin_capacity_witness:
  "isValid hdr0 \<and> normalize hdr0 0x2048 = Inr 0x2040 \<and> length (pinned hdr0) = MAX_PINNED \<and>
   pinned hdr0 ! 0 = 0 \<and>
   pin hdr0 0x2048 = Inr (hdr0\<lparr>pinned := (pinned hdr0)[0 := 0x2041]\<rparr>) \<and>
   isValid hdr_full \<and> normalize hdr_full 0x2048 = Inr 0x2040 \<and>
   length (pinned hdr_full) = MAX_PINNED \<and>
   pin hdr_full 0x2048 = Inl AssertionFailed \<and>
   run False (map Pin (replicate 101 0x2048)) (hdr0, {}) = Inl (Fatal AssertionFailed)"
proof -
  have n: "normalize hdr0 0x2048 = Inr 0x2040"
    by (simp add: normalize_def isValid_def hdr0_def)
  have l: "length (pinned hdr0) = MAX_PINNED" by (simp add: hdr0_def MAX_PINNED_def)
  have z: "pinned hdr0 ! 0 = 0" by (simp add: hdr0_def)
  have nf: "normalize hdr_full 0x2048 = Inr 0x2040"
    by (simp add: normalize_def isValid_def hdr0_def hdr_full_def)
  have lf: "length (pinned hdr_full) = MAX_PINNED" by (simp add: hdr_full_def MAX_PINNED_def)
  have full: "\<forall>i < MAX_PINNED. pinned hdr_full ! i \<noteq> 0"
    by (simp add: hdr_full_def MAX_PINNED_def)
  have o: "(0x2040 :: addr) OR IN_USE = 0x2041" by (simp add: IN_USE_def)
  have m: "MAX_PINNED < length (replicate 101 (0x2048 :: addr))" by (simp add: MAX_PINNED_def)
  note a = pin_capacity [OF hdr0_valid n l, of "{}"]
  note b = pin_capacity [OF hdr_full_valid nf lf, of "{}"]
  have 1: "pin hdr0 0x2048 = Inr (hdr0\<lparr>pinned := (pinned hdr0)[0 := 0x2041]\<rparr>)"
    using a z o by (simp add: MAX_PINNED_def)
  have 2: "pin hdr_full 0x2048 = Inl AssertionFailed" using b full by blast
  have 3: "run False (map Pin (replicate 101 0x2048)) (hdr0, {}) = Inl (Fatal AssertionFailed)"
    using a m by blast
  show ?thesis using hdr0_valid n l z 1 hdr_full_valid nf lf 2 3 by blast
qed

section \<open>A drained superblock is reset\<close>

lemma free_le_total:
  assumes "consistent s L"
  shows "unat (objectsFree s) + card L + length (deferred s) = unat (totalObjects s)"
proof -
  have "unat (reapableObjects s) \<le> unat (totalObjects s)"
    and "unat (objectsFree s) = unat (reapableObjects s) + length (freeList s)"
    using assms by (simp_all add: consistent_def)
  then show ?thesis using count_slots(2) [OF assms] by (simp add: reaped_def)
qed

lemma settled_decrement:
  assumes "consistent s L" "objectsFree s \<noteq> 0"
  shows "objectsFree s - 1 \<noteq> totalObjects s"
proof -
  have "unat (objectsFree s - 1) = unat (objectsFree s) - 1"
    using assms(2) by (simp add: unat_minus_one)
  moreover have "0 < unat (objectsFree s)" using assms(2) by (simp add: unat_gt_0)
  moreover have "unat (objectsFree s) \<le> unat (totalObjects s)"
    using free_le_total [OF assms(1)] by simp
  ultimately have "unat (objectsFree s - 1) < unat (totalObjects s)" by simp
  then show ?thesis by auto
qed

lemma reap_free_nonzero:
  assumes "consistent s L" "reapableObjects s \<noteq> 0 \<or> freeList s \<noteq> []"
  shows "objectsFree s \<noteq> 0"
proof -
  have "unat (objectsFree s) = unat (reapableObjects s) + length (freeList s)"
    using assms(1) by (simp add: consistent_def)
  moreover have "0 < unat (reapableObjects s) + length (freeList s)"
    using assms(2) by (auto simp add: unat_gt_0)
  ultimately have "0 < unat (objectsFree s)" by simp
  then show ?thesis by (simp add: unat_gt_0)
qed

lemma malloc_settled:
  assumes "consistent s L" "settled s" "malloc s = Inr (p, s1)"
  shows "settled s1"
proof (cases rule: malloc_cases [OF assms(1)])
  case 1
  have "objectsFree s - 1 \<noteq> totalObjects s"
    using settled_decrement [OF assms(1)] reap_free_nonzero [OF assms(1)] 1(1) by simp
  then show ?thesis using 1(2) assms(3) by (auto simp add: settled_def)
next
  case (2 e es)
  have "objectsFree s - 1 \<noteq> totalObjects s"
    using settled_decrement [OF assms(1)] reap_free_nonzero [OF assms(1)] 2(2) by simp
  then show ?thesis using 2(3) assms(3) by (auto simp add: settled_def)
next
  case 3
  then show ?thesis using assms(2,3) by simp
qed

lemma reclaim_settled:
  assumes "consistent s L" "p \<in> L" "reclaim s p = Inr s1"
  shows "settled s1"
proof -
  have e: "if unat (objectsFree s) + 1 = unat (totalObjects s)
            then s1 = s\<lparr>freeList := [], objectsFree := totalObjects s,
                        reapableObjects := totalObjects s, position := start s\<rparr>
            else s1 = s\<lparr>freeList := p # freeList s, objectsFree := objectsFree s + 1\<rparr>"
    and u: "unat (objectsFree s1) = Suc (unat (objectsFree s))"
    using reclaim_consistent [OF assms(1,2)] assms(3) by auto
  show ?thesis
  proof (cases "unat (objectsFree s) + 1 = unat (totalObjects s)")
    case True
    then show ?thesis using e by (simp add: settled_def)
  next
    case False
    then have "s1 = s\<lparr>freeList := p # freeList s, objectsFree := objectsFree s + 1\<rparr>"
      using e by simp
    then have "totalObjects s1 = totalObjects s" by simp
    then have "objectsFree s1 \<noteq> totalObjects s1" using u False by auto
    then show ?thesis by (simp add: settled_def)
  qed
qed

lemma settled_pinned: "settled (s\<lparr>pinned := t\<rparr>) = settled s"
  by (simp add: settled_def)

lemma free_settled:
  assumes "consistent s L" "settled s" "p \<in> L" "free s p = Inr s1"
  shows "settled s1"
proof (cases "scan (\<lambda>e. e AND NOT IN_USE = p) (pinned s) 0")
  case None
  then have "reclaim s p = Inr s1" using free_reclaim [OF assms(1,3) None] assms(4) by simp
  then show ?thesis using reclaim_settled [OF assms(1,3)] by simp
next
  case (Some i)
  then show ?thesis using free_deferred(1) [OF assms(1,3) Some] assms(2,4)
    by (auto simp add: settled_pinned)
qed

lemma pin_settled:
  assumes "settled s" "pin s p = Inr s1"
  shows "settled s1"
  using assms by (auto simp add: pin_def settled_pinned split: if_splits sum.splits option.splits)

lemma unpin_settled:
  assumes "consistent s L" "settled s" "in_slots s p" "unpin s p = Inr s1"
  shows "settled s1"
proof -
  have g: "geometry s" using assms(1) by (rule consistent_geometry)
  have v: "isValid s" using g by (simp add: geometry_def)
  obtain k d where kd: "k < unat (totalObjects s)" "unat d < unat (objectSize s)" "p = slot s k + d"
    using in_slots_slot [OF g assms(3)] by blast
  have n: "normalize s p = Inr (slot s k)" unfolding kd(3) using g kd(1,2) by (rule normalize_slot)
  have nz: "slot s k \<noteq> 0" using g kd(1) by (intro slot_nonzero) simp_all
  obtain i where i: "scan (\<lambda>e. e AND NOT IN_USE = slot s k) (pinned s) 0 = Some i"
    using assms(4) unpin_result [OF v n] by (auto split: option.splits)
  show ?thesis
  proof (cases "pinned s ! i AND 1 = 0")
    case True
    obtain s2 where r: "reclaim (s\<lparr>pinned := (pinned s)[i := 0]\<rparr>) (slot s k) = Inr s2"
      and u: "unpin s p = Inr s2"
      and c: "consistent (s\<lparr>pinned := (pinned s)[i := 0]\<rparr>) (insert (slot s k) L)"
      using unpin_deferred [OF assms(1) n nz i True] by blast
    have "settled s2" using reclaim_settled [OF c _ r] by simp
    then show ?thesis using u assms(4) by simp
  next
    case False
    then show ?thesis using unpin_pinned(1) [OF assms(1) n i False] assms(2,4)
      by (auto simp add: settled_pinned)
  qed
qed

lemma step_settled:
  assumes "consistent s L" "settled s" "step once c (s, L) = Inr (s1, L1)"
  shows "settled s1"
proof (cases c)
  case Allocate
  then show ?thesis using assms malloc_settled by (auto split: sum.splits)
next
  case (Release p)
  then show ?thesis using assms free_settled by (auto split: sum.splits if_splits)
next
  case (Pin p)
  then show ?thesis using assms pin_settled by (auto split: sum.splits if_splits)
next
  case (Unpin p)
  then show ?thesis using assms unpin_settled by (auto split: sum.splits if_splits)
qed

lemma run_invariant:
  "consistent s L \<Longrightarrow> settled s \<Longrightarrow> run once cs (s, L) = Inr (s1, L1) \<Longrightarrow>
     consistent s1 L1 \<and> settled s1"
proof (induction cs arbitrary: s L)
  case Nil
  then show ?case by simp
next
  case (Cons c cs)
  then obtain s2 L2 where a: "step once c (s, L) = Inr (s2, L2)"
    and b: "run once cs (s2, L2) = Inr (s1, L1)"
    by (auto split: sum.splits)
  have "consistent s2 L2" using Cons.prems(1) a by (rule step_consistent)
  moreover have "settled s2" using Cons.prems(1,2) a by (rule step_settled)
  ultimately show ?case using b by (intro Cons.IH)
qed

lemma constructed_settled:
  assumes "ZeusSuperblockHeaderHelper e sz bufferSize st = Inr s"
  shows "settled s"
  using constructed_fields(6) [OF assms] by (simp add: settled_def)

lemma reachable_invariant:
  assumes "ZeusSuperblockHeaderHelper e sz bufferSize st = Inr s0" "fresh e bufferSize st"
    and "run once cs (s0, {}) = Inr (s, L)"
  shows "consistent s L" "settled s"
  using run_invariant [OF constructed_consistent [OF assms(1,2)] constructed_settled [OF assms(1)]
      assms(3)] by simp_all

lemma live_slot:
  assumes "consistent s L" "p \<in> L"
  shows "\<exists>k < unat (totalObjects s). p = slot s k"
proof -
  have "p \<in> L \<union> set (freeList s) \<union> set (deferred s)" using assms(2) by simp
  from consistent_slots [OF assms(1) this] show ?thesis by auto
qed

lemma run_hdr0_allocate:
  "run False [Allocate] (hdr0, {}) =
     Inr (hdr0\<lparr>position := 0x2040, reapableObjects := 3, objectsFree := 3\<rparr>, {0x2000})"
  by (simp add: malloc_hdr0)

text \<open>
  C2 (allocation order). In every state a client can reach from a superblock built in fresh
  memory, \<open>malloc\<close> never ends in a fatal condition and:
  while \<open>reapableObjects\<close> is not zero it returns the cursor \<open>position\<close>, advances the cursor
  by \<open>objectSize\<close> and decrements \<open>reapableObjects\<close> and \<open>objectsFree\<close> (neither wraps);
  otherwise, when the free list is not empty, it unlinks and returns the head of the free
  list and decrements \<open>objectsFree\<close>;
  it returns the null pointer exactly when \<open>reapableObjects\<close> is zero and the free list is
  empty; and a pointer that is not null is a multiple of \<open>Alignment\<close> and is
  \<open>start + k * objectSize\<close> for some \<open>k < totalObjects\<close>, computed without wrap-around.
\<close>

theorem allocate_order:
  assumes "ZeusSuperblockHeaderHelper e sz bufferSize st = Inr s0" and "fresh e bufferSize st"
    and "run once cs (s0, {}) = Inr (s, L)"
  shows "(reapableObjects s \<noteq> 0 \<longrightarrow>
            malloc s = Inr (position s,
              s\<lparr>position := position s + objectSize s,
                reapableObjects := reapableObjects s - 1,
                objectsFree := objectsFree s - 1\<rparr>) \<and>
            objectsFree s \<noteq> 0) \<and>
         (reapableObjects s = 0 \<longrightarrow> (\<forall>a as. freeList s = a # as \<longrightarrow>
            malloc s = Inr (a, s\<lparr>freeList := as, objectsFree := objectsFree s - 1\<rparr>) \<and>
            objectsFree s \<noteq> 0)) \<and>
         (\<exists>p s1. malloc s = Inr (p, s1) \<and>
            (p = 0 \<longleftrightarrow> reapableObjects s = 0 \<and> freeList s = []) \<and>
            (p \<noteq> 0 \<longrightarrow> p mod Alignment = 0 \<and>
               (\<exists>k < unat (totalObjects s). p = start s + of_nat k * objectSize s \<and>
                  unat p = unat (start s) + k * unat (objectSize s))))"
proof -
  have c: "consistent s L" using reachable_invariant(1) [OF assms] .
  have g: "geometry s" using c by (rule consistent_geometry)
  have a: "reapableObjects s \<noteq> 0 \<longrightarrow>
            malloc s = Inr (position s,
              s\<lparr>position := position s + objectSize s,
                reapableObjects := reapableObjects s - 1,
                objectsFree := objectsFree s - 1\<rparr>) \<and>
            objectsFree s \<noteq> 0"
    using malloc_reap [OF c] reap_free_nonzero [OF c] by simp
  have b: "reapableObjects s = 0 \<longrightarrow> (\<forall>a as. freeList s = a # as \<longrightarrow>
            malloc s = Inr (a, s\<lparr>freeList := as, objectsFree := objectsFree s - 1\<rparr>) \<and>
            objectsFree s \<noteq> 0)"
    using malloc_list [OF c] reap_free_nonzero [OF c] by simp
  obtain p s1 where m: "malloc s = Inr (p, s1)"
    by (cases rule: malloc_cases [OF c]) simp_all
  have z: "p = 0 \<longleftrightarrow> reapableObjects s = 0 \<and> freeList s = []"
  proof (cases rule: malloc_cases [OF c])
    case 1
    have "reaped s \<le> unat (totalObjects s)" by (rule reaped_le)
    then have "slot s (reaped s) \<noteq> 0" using g by (intro slot_nonzero)
    then show ?thesis using 1 m c by (simp add: consistent_def)
  next
    case (2 a as)
    obtain k where "k < unat (totalObjects s)" "a = slot s k"
      using consistent_slots [OF c, of a] 2(2) by auto
    then have "a \<noteq> 0" using g by (simp add: slot_nonzero)
    then show ?thesis using 2 m by simp
  next
    case 3
    then show ?thesis using m by simp
  qed
  have w: "p \<noteq> 0 \<longrightarrow> p mod Alignment = 0 \<and>
               (\<exists>k < unat (totalObjects s). p = start s + of_nat k * objectSize s \<and>
                  unat p = unat (start s) + k * unat (objectSize s))"
  proof
    assume "p \<noteq> 0"
    then obtain k where k: "k < unat (totalObjects s)" "p = slot s k"
      using malloc_consistent(3) [OF c m] by blast
    have "p mod Alignment = 0" unfolding k(2) using g k(1) by (rule slot_aligned)
    moreover have "unat p = unat (start s) + k * unat (objectSize s)"
      unfolding k(2) using g k(1) by (intro unat_slot) simp_all
    ultimately show "p mod Alignment = 0 \<and>
               (\<exists>k < unat (totalObjects s). p = start s + of_nat k * objectSize s \<and>
                  unat p = unat (start s) + k * unat (objectSize s))"
      using k by (auto simp add: slot_def)
  qed
  have d: "\<exists>p s1. malloc s = Inr (p, s1) \<and>
            (p = 0 \<longleftrightarrow> reapableObjects s = 0 \<and> freeList s = []) \<and>
            (p \<noteq> 0 \<longrightarrow> p mod Alignment = 0 \<and>
               (\<exists>k < unat (totalObjects s). p = start s + of_nat k * objectSize s \<and>
                  unat p = unat (start s) + k * unat (objectSize s)))"
    by (intro exI [of _ p] exI [of _ s1] conjI m z w)
  show ?thesis by (rule conjI [OF a conjI [OF b d]])
qed

theorem allocate_order_witness:
  "ZeusSuperblockHeaderHelper env0 64 256 0x2000 = Inr hdr0 \<and> fresh env0 256 0x2000 \<and>
   run False [] (hdr0, {}) = Inr (hdr0, {}) \<and> reapableObjects hdr0 \<noteq> 0 \<and>
   malloc hdr0 = Inr (position hdr0,
     hdr0\<lparr>position := position hdr0 + objectSize hdr0,
       reapableObjects := reapableObjects hdr0 - 1,
       objectsFree := objectsFree hdr0 - 1\<rparr>) \<and>
   objectsFree hdr0 \<noteq> 0"
proof -
  have r: "run False [] (hdr0, {}) = Inr (hdr0, {})" by simp
  have n: "reapableObjects hdr0 \<noteq> 0" by (simp add: hdr0_def)
  show ?thesis
    using allocate_order [OF construct_hdr0 fresh_env0 r] construct_hdr0 fresh_env0 r n by blast
qed

text \<open>
  C4 (bounds and disjointness). After every sequence of calls a client can make on a
  superblock built in fresh memory (each \<open>free\<close> given a live pointer),
  \<open>objectsFree \<le> totalObjects\<close> (and \<open>0 \<le> objectsFree\<close>, the counter being unsigned);
  every live pointer is the base of a slot; two different live pointers are at least
  \<open>objectSize\<close> apart, so their slots do not overlap; a pointer \<open>malloc\<close> returns next is
  none of the live ones; and a sequence of \<open>malloc\<close> and \<open>free\<close> calls never ends in a fatal
  condition.
\<close>

theorem bounds_and_disjointness:
  assumes "ZeusSuperblockHeaderHelper e sz bufferSize st = Inr s0" and "fresh e bufferSize st"
    and "run once cs (s0, {}) = Inr (s, L)"
  shows "0 \<le> unat (objectsFree s) \<and> unat (objectsFree s) \<le> unat (totalObjects s) \<and>
         (\<forall>p \<in> L. \<exists>k < unat (totalObjects s). p = start s + of_nat k * objectSize s) \<and>
         (\<forall>p \<in> L. \<forall>q \<in> L. p \<noteq> q \<longrightarrow>
            unat p + unat (objectSize s) \<le> unat q \<or> unat q + unat (objectSize s) \<le> unat p) \<and>
         (\<forall>p s1. malloc s = Inr (p, s1) \<and> p \<noteq> 0 \<longrightarrow> p \<notin> L) \<and>
         (\<forall>c f. (c = Allocate \<or> (\<exists>p. c = Release p)) \<longrightarrow> step once c (s, L) \<noteq> Inl (Fatal f))"
proof -
  have c: "consistent s L" using reachable_invariant(1) [OF assms] .
  have g: "geometry s" using c by (rule consistent_geometry)
  have 1: "unat (objectsFree s) \<le> unat (totalObjects s)" using free_le_total [OF c] by simp
  have 2: "\<forall>p \<in> L. \<exists>k < unat (totalObjects s). p = start s + of_nat k * objectSize s"
    using live_slot [OF c] by (auto simp add: slot_def)
  have 3: "unat p + unat (objectSize s) \<le> unat q \<or> unat q + unat (objectSize s) \<le> unat p"
    if pL: "p \<in> L" and qL: "q \<in> L" and ne: "p \<noteq> q" for p q
  proof -
    obtain k where k: "k < unat (totalObjects s)" "p = slot s k"
      using live_slot [OF c pL] by auto
    obtain j where j: "j < unat (totalObjects s)" "q = slot s j"
      using live_slot [OF c qL] by auto
    have up: "unat p = unat (start s) + k * unat (objectSize s)"
      unfolding k(2) using g k(1) by (intro unat_slot) simp_all
    have uq: "unat q = unat (start s) + j * unat (objectSize s)"
      unfolding j(2) using g j(1) by (intro unat_slot) simp_all
    have "k \<noteq> j" using ne k(2) j(2) by auto
    then consider "Suc k \<le> j" | "Suc j \<le> k" by linarith
    then show ?thesis
    proof cases
      case 1
      then have "Suc k * unat (objectSize s) \<le> j * unat (objectSize s)" by (rule mult_le_mono1)
      then show ?thesis using up uq by simp
    next
      case 2
      then have "Suc j * unat (objectSize s) \<le> k * unat (objectSize s)" by (rule mult_le_mono1)
      then show ?thesis using up uq by simp
    qed
  qed
  have 4: "\<forall>p s1. malloc s = Inr (p, s1) \<and> p \<noteq> 0 \<longrightarrow> p \<notin> L"
    using malloc_consistent(2) [OF c] by blast
  have 5: "step once c (s, L) \<noteq> Inl (Fatal f)" if "c = Allocate \<or> (\<exists>p. c = Release p)" for c f
  proof (cases c)
    case Allocate
    obtain p s1 where "malloc s = Inr (p, s1)"
      by (cases rule: malloc_cases [OF \<open>consistent s L\<close>]) simp_all
    then show ?thesis using Allocate by simp
  next
    case (Release p)
    show ?thesis
    proof (cases "p \<in> L")
      case True
      then show ?thesis using free_consistent [OF c True] Release by auto
    next
      case False
      then show ?thesis using Release by simp
    qed
  next
    case (Pin p)
    then show ?thesis using that by simp
  next
    case (Unpin p)
    then show ?thesis using that by simp
  qed
  show ?thesis using 1 2 3 4 5 by blast
qed

theorem bounds_and_disjointness_witness:
  "ZeusSuperblockHeaderHelper env0 64 256 0x2000 = Inr hdr0 \<and> fresh env0 256 0x2000 \<and>
   run False [Allocate] (hdr0, {}) =
     Inr (hdr0\<lparr>position := 0x2040, reapableObjects := 3, objectsFree := 3\<rparr>, {0x2000}) \<and>
   unat (objectsFree (hdr0\<lparr>position := 0x2040, reapableObjects := 3, objectsFree := 3\<rparr>))
     \<le> unat (totalObjects (hdr0\<lparr>position := 0x2040, reapableObjects := 3, objectsFree := 3\<rparr>))"
  using bounds_and_disjointness [OF construct_hdr0 fresh_env0 run_hdr0_allocate]
    construct_hdr0 fresh_env0 run_hdr0_allocate by blast

lemma construct_hdr48: "ZeusSuperblockHeaderHelper env0 48 144 0x2000 = Inr hdr48"
  by (simp add: ZeusSuperblockHeaderHelper_def env0_def hdr48_def Let_def align_def Alignment_def
      MAX_PINNED_def map_replicate_const)

lemma fresh_env0_48: "fresh env0 144 0x2000"
  by (simp add: fresh_def env0_def list_all_iff)

lemma malloc_hdr48:
  "malloc hdr48 = Inr (0x2000, hdr48\<lparr>position := 0x2030, reapableObjects := 2, objectsFree := 2\<rparr>)"
  by (simp add: malloc_def reapAlloc_def getSize_def isValid_def hdr48_def Let_def Alignment_def)

text \<open>
  C9 (normalize round trip). For a pointer \<open>ptr\<close> that \<open>malloc\<close> returns in a reachable state
  and every offset \<open>k < objectSize\<close>, \<open>normalize (ptr + k) = ptr\<close> (so \<open>normalize ptr = ptr\<close>),
  in the state \<open>malloc\<close> leaves and in every state reached from it. The modulo computation
  gives \<open>ptr\<close> for every object size, and the mask computation gives \<open>ptr\<close> whenever the
  constructor's power-of-two test holds of the object size.
\<close>

theorem normalize_round_trip:
  assumes "ZeusSuperblockHeaderHelper e sz bufferSize st = Inr s0" and "fresh e bufferSize st"
    and "run once cs (s0, {}) = Inr (s, L)"
    and "malloc s = Inr (ptr, s1)" and "ptr \<noteq> 0"
    and "run once cs1 (s1, insert ptr L) = Inr (s2, L2)"
    and "unat k < unat (objectSize s2)"
  shows "normalize s2 ptr = Inr ptr \<and> normalize s2 (ptr + k) = Inr ptr \<and>
         ptr + k - ((ptr + k - start s2) mod objectSize s2) = ptr \<and>
         (objectSize s2 AND (objectSize s2 - 1) = 0 \<longrightarrow>
            ptr + k - ((ptr + k - start s2) AND (objectSize s2 - 1)) = ptr)"
proof -
  have c: "consistent s L" using reachable_invariant(1) [OF assms(1-3)] .
  have c1: "consistent s1 (insert ptr L)"
    using malloc_consistent(1) [OF c assms(4)] assms(5) by simp
  have c2: "consistent s2 L2" using run_consistent [OF c1 assms(6)] .
  have g2: "geometry s2" using c2 by (rule consistent_geometry)
  have st: "objectSize s2 = objectSize s \<and> totalObjects s2 = totalObjects s \<and> start s2 = start s"
    using malloc_static [OF assms(4)] run_static [OF assms(6)] by simp
  obtain j where j: "j < unat (totalObjects s)" "ptr = slot s j"
    using malloc_consistent(3) [OF c assms(4) assms(5)] by blast
  have j2: "j < unat (totalObjects s2)" and p2: "ptr = slot s2 j"
    using j st by (simp_all add: slot_def)
  have z: "unat (0 :: addr) < unat (objectSize s2)" using assms(7) by simp
  have n0: "normalize s2 (slot s2 j + 0) = Inr (slot s2 j)" using g2 j2 z by (rule normalize_slot)
  have nk: "normalize s2 (slot s2 j + k) = Inr (slot s2 j)"
    using g2 j2 assms(7) by (rule normalize_slot)
  have m: "(slot s2 j + k - start s2) mod objectSize s2 = k"
    using g2 j2 assms(7) by (rule slot_offset)
  have a: "objectSize s2 AND (objectSize s2 - 1) = 0 \<longrightarrow>
      (slot s2 j + k - start s2) AND (objectSize s2 - 1) = k"
  proof
    assume p: "objectSize s2 AND (objectSize s2 - 1) = 0"
    have "objectSize s2 \<noteq> 0" using assms(7) by (auto simp add: unat_gt_0 [symmetric] simp del: unat_gt_0)
    then show "(slot s2 j + k - start s2) AND (objectSize s2 - 1) = k"
      using word_pow2_mask [OF p] m by simp
  qed
  show ?thesis using n0 nk m a unfolding p2 by simp
qed

theorem normalize_round_trip_witness:
  "ZeusSuperblockHeaderHelper env0 64 256 0x2000 = Inr hdr0 \<and> fresh env0 256 0x2000 \<and>
   run False [] (hdr0, {}) = Inr (hdr0, {}) \<and>
   malloc hdr0 = Inr (0x2000, hdr0\<lparr>position := 0x2040, reapableObjects := 3, objectsFree := 3\<rparr>) \<and>
   objectSizeIsPowerOfTwo hdr0 \<and>
   normalize (hdr0\<lparr>position := 0x2040, reapableObjects := 3, objectsFree := 3\<rparr>) (0x2000 + 63)
     = Inr 0x2000 \<and>
   ZeusSuperblockHeaderHelper env0 48 144 0x2000 = Inr hdr48 \<and> fresh env0 144 0x2000 \<and>
   run False [] (hdr48, {}) = Inr (hdr48, {}) \<and>
   malloc hdr48 = Inr (0x2000, hdr48\<lparr>position := 0x2030, reapableObjects := 2, objectsFree := 2\<rparr>) \<and>
   \<not> objectSizeIsPowerOfTwo hdr48 \<and>
   normalize (hdr48\<lparr>position := 0x2030, reapableObjects := 2, objectsFree := 2\<rparr>) (0x2000 + 47)
     = Inr 0x2000"
proof -
  let ?h1 = "hdr0\<lparr>position := 0x2040, reapableObjects := 3, objectsFree := 3\<rparr>"
  let ?h2 = "hdr48\<lparr>position := 0x2030, reapableObjects := 2, objectsFree := 2\<rparr>"
  have r0: "run False [] (hdr0, {}) = Inr (hdr0, {})" by simp
  have r1: "run False [] (?h1, insert 0x2000 {}) = Inr (?h1, {0x2000})" by simp
  have k1: "unat (63 :: addr) < unat (objectSize ?h1)" by (simp add: hdr0_def)
  have nz: "(0x2000 :: addr) \<noteq> 0" by simp
  have q0: "run False [] (hdr48, {}) = Inr (hdr48, {})" by simp
  have q1: "run False [] (?h2, insert 0x2000 {}) = Inr (?h2, {0x2000})" by simp
  have k2: "unat (47 :: addr) < unat (objectSize ?h2)" by (simp add: hdr48_def)
  have p1: "objectSizeIsPowerOfTwo hdr0" by (simp add: hdr0_def)
  have p2: "\<not> objectSizeIsPowerOfTwo hdr48" by (simp add: hdr48_def)
  note a = normalize_round_trip [OF construct_hdr0 fresh_env0 r0 malloc_hdr0 nz r1 k1]
  note b = normalize_round_trip [OF construct_hdr48 fresh_env0_48 q0 malloc_hdr48 nz q1 k2]
  show ?thesis
    using a b construct_hdr0 fresh_env0 r0 malloc_hdr0 construct_hdr48 fresh_env0_48 q0
      malloc_hdr48 p1 p2 by simp
qed

section \<open>Evaluating the small superblock\<close>

lemma scan_zero_replicate: "0 < MAX_PINNED \<Longrightarrow> scan (\<lambda>e. e = 0) (replicate 100 0) 0 = Some 0"
  by (simp add: scan.simps [of _ _ 0])

lemma run_hdr_pinned:
  "run False [Allocate, Allocate, Pin 0x2000] (hdr0, {}) = Inr (hdr_pinned, {0x2000, 0x2040})"
proof -
  let ?h1 = "hdr0\<lparr>position := 0x2040, reapableObjects := 3, objectsFree := 3\<rparr>"
  let ?h2 = "hdr0\<lparr>position := 0x2080, reapableObjects := 2, objectsFree := 2\<rparr>"
  have m2: "malloc ?h1 = Inr (0x2040, ?h2)"
    by (simp add: malloc_def reapAlloc_def getSize_def isValid_def hdr0_def Let_def Alignment_def)
  have p: "pin ?h2 0x2000 = Inr hdr_pinned"
    by (simp add: pin_def normalize_def isValid_def hdr0_def hdr_pinned_def IN_USE_def
        scan.simps [of _ _ 0] MAX_PINNED_def)
  show ?thesis using malloc_hdr0 m2 p by (simp add: insert_commute)
qed

lemma run_hdr_twice:
  "run False [Allocate, Pin 0x2000, Pin 0x2000] (hdr0, {}) = Inr (hdr_twice, {0x2000})"
proof -
  let ?h1 = "hdr0\<lparr>position := 0x2040, reapableObjects := 3, objectsFree := 3\<rparr>"
  let ?h2 = "?h1\<lparr>pinned := (replicate 100 0)[0 := 0x2001]\<rparr>"
  have p1: "pin ?h1 0x2000 = Inr ?h2"
    by (simp add: pin_def normalize_def isValid_def hdr0_def IN_USE_def
        scan.simps [of _ _ 0] MAX_PINNED_def)
  have s: "scan (\<lambda>e. e = 0) ((replicate 100 0)[0 := 0x2001]) 0 = Some 1"
    by (simp add: scan.simps [of _ _ 0] scan.simps [of _ _ 1] scan.simps [of _ _ "Suc 0"] MAX_PINNED_def)
  have p2: "pin ?h2 0x2000 = Inr hdr_twice"
    using s by (simp add: pin_def normalize_def isValid_def hdr0_def hdr_twice_def IN_USE_def)
  show ?thesis using malloc_hdr0 p1 p2 by simp
qed

lemma names_hdr_twice: "pinned_names hdr_twice = [0x2000, 0x2000]"
proof -
  have "(replicate 100 (0 :: addr))[0 := 0x2001, 1 := 0x2001] = [0x2001, 0x2001] @ replicate 98 0"
    by (simp add: numeral_eq_Suc)
  then have "pinned hdr_twice = [0x2001, 0x2001] @ replicate 98 0"
    by (simp add: hdr_twice_def)
  then show ?thesis by (simp add: pinned_names_def IN_USE_def)
qed

section \<open>The addresses named by the pin table\<close>

lemma names_update_same:
  assumes "i < length t" "Q (t ! i)" "Q v" "f v = f (t ! i)"
  shows "map f (filter Q (t[i := v])) = map f (filter Q t)"
proof -
  have "t = take i t @ t ! i # drop (Suc i) t" using assms(1) by (rule id_take_nth_drop)
  then have a: "filter Q t = filter Q (take i t) @ t ! i # filter Q (drop (Suc i) t)"
    using assms(2) by (metis filter.simps(2) filter_append)
  have b: "filter Q (t[i := v]) = filter Q (take i t) @ v # filter Q (drop (Suc i) t)"
    using assms(1,3) by (simp add: upd_conv_take_nth_drop)
  show ?thesis unfolding a b using assms(4) by simp
qed

lemma names_update_add:
  assumes "i < length t" "\<not> Q (t ! i)" "Q v" "distinct (map f (filter Q t))"
    and "f v \<notin> set (map f (filter Q t))"
  shows "distinct (map f (filter Q (t[i := v])))"
proof -
  have "t = take i t @ t ! i # drop (Suc i) t" using assms(1) by (rule id_take_nth_drop)
  then have a: "filter Q t = filter Q (take i t) @ filter Q (drop (Suc i) t)"
    using assms(2) by (metis filter.simps(2) filter_append)
  have b: "filter Q (t[i := v]) = filter Q (take i t) @ v # filter Q (drop (Suc i) t)"
    using assms(1,3) by (simp add: upd_conv_take_nth_drop)
  show ?thesis using assms(4,5) unfolding a b by auto
qed

lemma names_update_del:
  assumes "i < length t" "\<not> Q v" "distinct (map f (filter Q t))"
  shows "distinct (map f (filter Q (t[i := v])))"
proof -
  have "t = take i t @ t ! i # drop (Suc i) t" using assms(1) by (rule id_take_nth_drop)
  then have "filter Q t = filter Q (take i t) @ filter Q (t ! i # drop (Suc i) t)"
    by (metis filter_append)
  then have a: "distinct (map f (filter Q (take i t) @ filter Q (drop (Suc i) t)))"
    using assms(3) by (auto split: if_splits)
  have b: "filter Q (t[i := v]) = filter Q (take i t) @ filter Q (drop (Suc i) t)"
    using assms(1,2) by (simp add: upd_conv_take_nth_drop)
  show ?thesis using a unfolding b by simp
qed

lemma aligned_even:
  fixes p :: addr
  assumes "p mod Alignment = 0"
  shows "p AND 1 = 0"
proof -
  have "p AND mask 4 = 0" using assms word_mod_2p_is_mask [of 4 p] by (simp add: Alignment_def)
  then have a: "p AND 15 = 0" by (simp add: mask_eq_exp_minus_1)
  have "p AND 1 = p AND (15 AND 1)" by simp
  also have "\<dots> = (p AND 15) AND 1" by (simp only: and.assoc)
  finally show ?thesis using a by simp
qed

lemma free_names:
  assumes "consistent s L" "p \<in> L" "free s p = Inr s1"
  shows "pinned_names s1 = pinned_names s"
proof (cases "scan (\<lambda>e. e AND NOT IN_USE = p) (pinned s) 0")
  case None
  then have "reclaim s p = Inr s1" using free_reclaim [OF assms(1,2) None] assms(3) by simp
  then show ?thesis using reclaim_keeps_pinned by (simp add: pinned_names_def)
next
  case (Some i)
  have g: "geometry s" using assms(1) by (rule consistent_geometry)
  have len: "length (pinned s) = MAX_PINNED" using g by (simp add: geometry_def)
  have il: "i < length (pinned s)" and m: "pinned s ! i AND NOT IN_USE = p"
    using scan_Some [OF Some] len by simp_all
  obtain k where k: "k < unat (totalObjects s)" "p = slot s k" using live_slot [OF assms(1,2)] by auto
  have nz: "p \<noteq> 0" unfolding k(2) using g k(1) by (intro slot_nonzero) simp_all
  have e: "pinned s ! i \<noteq> 0" using m nz by auto
  have s1: "s1 = s\<lparr>pinned := (pinned s)[i := p]\<rparr>"
    using free_deferred(1) [OF assms(1,2) Some] assms(3) m by simp
  have "p AND NOT IN_USE = pinned s ! i AND NOT IN_USE"
    using m flag_clear_mask [OF mask_flag_clear [of "pinned s ! i"]] by simp
  then have "map (\<lambda>e. e AND NOT IN_USE) (filter (\<lambda>e. e \<noteq> 0) ((pinned s)[i := p]))
      = map (\<lambda>e. e AND NOT IN_USE) (filter (\<lambda>e. e \<noteq> 0) (pinned s))"
    using il e nz by (intro names_update_same) simp_all
  then show ?thesis unfolding s1 by (simp add: pinned_names_def)
qed

lemma unpin_names:
  assumes "unpin s p = Inr s1" "length (pinned s) = MAX_PINNED" "distinct (pinned_names s)"
  shows "distinct (pinned_names s1)"
proof -
  have v: "isValid s" using assms(1) by (auto simp add: unpin_def split: if_splits)
  obtain obj where obj: "normalize s p = Inr obj" using normalize_total [OF v] by blast
  obtain i where i: "scan (\<lambda>e. e AND NOT IN_USE = obj) (pinned s) 0 = Some i"
    using assms(1) unpin_result [OF v obj] by (auto split: option.splits)
  have il: "i < length (pinned s)" using scan_Some [OF i] assms(2) by simp
  have "pinned s1 = (pinned s)[i := 0]"
  proof (cases "pinned s ! i AND IN_USE = 0")
    case True
    then obtain s2 where "reclaim s obj = Inr s2" "s1 = s2\<lparr>pinned := (pinned s2)[i := 0]\<rparr>"
      using assms(1) unpin_result [OF v obj] i by (auto split: sum.splits)
    then show ?thesis using reclaim_keeps_pinned [of s obj s2] by simp
  next
    case False
    then show ?thesis using assms(1) unpin_result [OF v obj] i by auto
  qed
  moreover have "distinct (map (\<lambda>e. e AND NOT IN_USE) (filter (\<lambda>e. e \<noteq> 0) ((pinned s)[i := 0])))"
    using il assms(3) by (intro names_update_del) (simp_all add: pinned_names_def)
  ultimately show ?thesis by (simp add: pinned_names_def)
qed

lemma pin_names:
  assumes "consistent s L" "in_slots s p" "normalize s p = Inr obj"
    and "obj \<notin> set (pinned_names s)" "distinct (pinned_names s)" "pin s p = Inr s1"
  shows "distinct (pinned_names s1)"
proof -
  have g: "geometry s" using assms(1) by (rule consistent_geometry)
  have v: "isValid s" and len: "length (pinned s) = MAX_PINNED" using g by (simp_all add: geometry_def)
  obtain k d where kd: "k < unat (totalObjects s)" "unat d < unat (objectSize s)" "p = slot s k + d"
    using in_slots_slot [OF g assms(2)] by blast
  have "normalize s p = Inr (slot s k)" unfolding kd(3) using g kd(1,2) by (rule normalize_slot)
  then have o: "obj = slot s k" using assms(3) by simp
  have "obj mod Alignment = 0" unfolding o using g kd(1) by (rule slot_aligned)
  then have ev: "obj AND 1 = 0" by (rule aligned_even)
  obtain i where i: "scan (\<lambda>e. e = 0) (pinned s) 0 = Some i"
    and s1: "s1 = s\<lparr>pinned := (pinned s)[i := obj OR IN_USE]\<rparr>"
    using assms(6) pin_result [OF v assms(3)] by (auto split: option.splits)
  have il: "i < length (pinned s)" and z: "pinned s ! i = 0"
    using scan_Some [OF i] len by simp_all
  have "distinct (map (\<lambda>e. e AND NOT IN_USE) (filter (\<lambda>e. e \<noteq> 0) ((pinned s)[i := obj OR IN_USE])))"
    using il z set_flag(2) [of obj] set_flag_mask [OF ev] assms(4,5)
    by (intro names_update_add) (simp_all add: pinned_names_def)
  then show ?thesis unfolding s1 by (simp add: pinned_names_def)
qed

lemma step_names:
  assumes "consistent s L" "distinct (pinned_names s)" "step True c (s, L) = Inr (s1, L1)"
  shows "distinct (pinned_names s1)"
proof (cases c)
  case Allocate
  then obtain p where "malloc s = Inr (p, s1)" using assms(3) by (auto split: sum.splits)
  then have "pinned s1 = pinned s" using malloc_static by blast
  then show ?thesis using assms(2) by (simp add: pinned_names_def)
next
  case (Release p)
  then have "p \<in> L" "free s p = Inr s1" using assms(3) by (auto split: sum.splits if_splits)
  then show ?thesis using free_names [OF assms(1)] assms(2) by simp
next
  case (Pin p)
  then have a: "in_slots s p" "pin s p = Inr s1"
    and b: "(case normalize s p of Inl f \<Rightarrow> False | Inr obj \<Rightarrow> obj \<in> set (pinned_names s)) = False"
    using assms(3) by (auto split: sum.splits if_splits)
  have v: "isValid s" using consistent_geometry [OF assms(1)] by (simp add: geometry_def)
  obtain obj where obj: "normalize s p = Inr obj" using normalize_total [OF v] by blast
  then have "obj \<notin> set (pinned_names s)" using b by simp
  then show ?thesis using pin_names [OF assms(1) a(1) obj _ assms(2) a(2)] by simp
next
  case (Unpin p)
  then have a: "unpin s p = Inr s1" using assms(3) by (auto split: sum.splits if_splits)
  have "length (pinned s) = MAX_PINNED"
    using consistent_geometry [OF assms(1)] by (simp add: geometry_def)
  then show ?thesis using unpin_names [OF a _ assms(2)] by simp
qed

lemma run_names:
  "consistent s L \<Longrightarrow> distinct (pinned_names s) \<Longrightarrow> run True cs (s, L) = Inr (s1, L1) \<Longrightarrow>
     distinct (pinned_names s1)"
proof (induction cs arbitrary: s L)
  case Nil
  then show ?case by simp
next
  case (Cons c cs)
  then obtain s2 L2 where a: "step True c (s, L) = Inr (s2, L2)"
    and b: "run True cs (s2, L2) = Inr (s1, L1)"
    by (auto split: sum.splits)
  have "consistent s2 L2" using Cons.prems(1) a by (rule step_consistent)
  moreover have "distinct (pinned_names s2)" using Cons.prems(1,2) a by (rule step_names)
  ultimately show ?case using b by (intro Cons.IH)
qed

text \<open>
  C6 (pin table distinctness), as the claim states it: false. \<open>pin\<close> never looks whether the
  table names the slot already, so after \<open>malloc\<close> and two \<open>pin\<close>s of the pointer returned two
  occupied entries name the same slot.
\<close>

theorem pin_table_distinct_counterexample:
  "ZeusSuperblockHeaderHelper env0 64 256 0x2000 = Inr hdr0 \<and>
   run False [Allocate, Pin 0x2000, Pin 0x2000] (hdr0, {}) = Inr (hdr_twice, {0x2000}) \<and>
   pinned_names hdr_twice = [0x2000, 0x2000] \<and> \<not> distinct (pinned_names hdr_twice)"
  using construct_hdr0 run_hdr_twice names_hdr_twice by simp

text \<open>
  C6, amended. In every reachable state the pin table has exactly \<open>MAX_PINNED\<close> entries, so
  at most \<open>MAX_PINNED\<close> are occupied. When the client pins only pointers into the slot
  region whose slot no occupied entry names yet, the occupied entries name distinct
  addresses in every reachable state.
\<close>

theorem pin_table_distinct:
  assumes "ZeusSuperblockHeaderHelper e sz bufferSize st = Inr s0" and "fresh e bufferSize st"
  shows "(\<forall>cs s L. run once cs (s0, {}) = Inr (s, L) \<longrightarrow>
            length (pinned s) = MAX_PINNED \<and> length (pinned_names s) \<le> MAX_PINNED) \<and>
         (\<forall>cs s L. run True cs (s0, {}) = Inr (s, L) \<longrightarrow> distinct (pinned_names s))"
proof (intro conjI allI impI)
  fix cs s L
  assume r: "run once cs (s0, {}) = Inr (s, L)"
  have "geometry s" using reachable_invariant(1) [OF assms r] by (rule consistent_geometry)
  then show l: "length (pinned s) = MAX_PINNED" by (simp add: geometry_def)
  show "length (pinned_names s) \<le> MAX_PINNED"
    using length_filter_le [of "\<lambda>e. e \<noteq> 0" "pinned s"] l by (simp add: pinned_names_def)
next
  fix cs s L
  assume r: "run True cs (s0, {}) = Inr (s, L)"
  have c0: "consistent s0 {}" using assms by (rule constructed_consistent)
  have "\<forall>i \<in> set [0..<MAX_PINNED]. env_pinned e i = 0"
    using assms(2) by (simp add: fresh_def list_all_iff)
  then have "filter (\<lambda>e. e \<noteq> 0) (pinned s0) = []"
    using constructed_fields(10) [OF assms(1)] by (auto simp add: filter_empty_conv)
  then have "distinct (pinned_names s0)" by (simp add: pinned_names_def)
  then show "distinct (pinned_names s)" using run_names [OF c0 _ r] by simp
qed

theorem pin_table_distinct_witness:
  "ZeusSuperblockHeaderHelper env0 64 256 0x2000 = Inr hdr0 \<and> fresh env0 256 0x2000 \<and>
   run True [Allocate, Pin 0x2000] (hdr0, {}) =
     Inr (hdr0\<lparr>position := 0x2040, reapableObjects := 3, objectsFree := 3,
               pinned := (replicate 100 0)[0 := 0x2001]\<rparr>, {0x2000}) \<and>
   distinct (pinned_names (hdr0\<lparr>position := 0x2040, reapableObjects := 3, objectsFree := 3,
               pinned := (replicate 100 0)[0 := 0x2001]\<rparr>))"
proof -
  let ?h1 = "hdr0\<lparr>position := 0x2040, reapableObjects := 3, objectsFree := 3\<rparr>"
  let ?h2 = "hdr0\<lparr>position := 0x2040, reapableObjects := 3, objectsFree := 3,
               pinned := (replicate 100 0)[0 := 0x2001]\<rparr>"
  have i: "in_slots ?h1 0x2000" by (simp add: in_slots_def hdr0_def)
  have n: "normalize ?h1 0x2000 = Inr 0x2000" by (simp add: normalize_def isValid_def hdr0_def)
  have e: "pinned_names ?h1 = []" by (simp add: pinned_names_def hdr0_def)
  have p: "pin ?h1 0x2000 = Inr ?h2"
    by (simp add: pin_def normalize_def isValid_def hdr0_def IN_USE_def
        scan.simps [of _ _ 0] MAX_PINNED_def)
  have r: "run True [Allocate, Pin 0x2000] (hdr0, {}) = Inr (?h2, {0x2000})"
    using malloc_hdr0 i n e p by simp
  show ?thesis using pin_table_distinct [OF construct_hdr0 fresh_env0] construct_hdr0 fresh_env0 r
    by blast
qed

lemma scan_none:
  assumes "\<forall>k < MAX_PINNED. \<not> P (t ! k)"
  shows "scan P t 0 = None"
proof (cases "scan P t 0")
  case None
  then show ?thesis .
next
  case (Some j)
  then show ?thesis using scan_Some [OF Some] assms by auto
qed

text \<open>
  C5 (release and interior pointers), as the claim states it: false. In the state reached
  by \<open>malloc\<close>, \<open>malloc\<close>, \<open>pin 0x2000\<close> the slot at \<open>0x2000\<close> is pinned. \<open>free 0x2000\<close> is
  deferred: it only clears the in-use bit of the entry. \<open>0x2010\<close> lies in the same slot
  (\<open>normalize\<close> maps it to \<open>0x2000\<close>), but \<open>free 0x2010\<close> finds no entry equal to \<open>0x2010\<close>:
  it leaves the pin table alone, links \<open>0x2010\<close> into the free list and counts it free.
\<close>

theorem release_interior_counterexample:
  "ZeusSuperblockHeaderHelper env0 64 256 0x2000 = Inr hdr0 \<and>
   run False [Allocate, Allocate, Pin 0x2000] (hdr0, {}) = Inr (hdr_pinned, {0x2000, 0x2040}) \<and>
   normalize hdr_pinned 0x2010 = Inr 0x2000 \<and>
   free hdr_pinned 0x2000 = Inr (hdr_pinned\<lparr>pinned := (replicate 100 0)[0 := 0x2000]\<rparr>) \<and>
   free hdr_pinned 0x2010 = Inr (hdr_pinned\<lparr>freeList := [0x2010], objectsFree := 3\<rparr>)"
proof -
  have n: "normalize hdr_pinned 0x2010 = Inr 0x2000"
    by (simp add: normalize_def isValid_def hdr0_def hdr_pinned_def)
  have s0: "scan (\<lambda>e. e AND NOT IN_USE = 0x2000) (pinned hdr_pinned) 0 = Some 0"
    by (simp add: scan.simps [of _ _ 0] hdr_pinned_def MAX_PINNED_def IN_USE_def)
  have f0: "free hdr_pinned 0x2000 = Inr (hdr_pinned\<lparr>pinned := (replicate 100 0)[0 := 0x2000]\<rparr>)"
    using s0 by (simp add: free_def isValid_def hdr0_def hdr_pinned_def Alignment_def IN_USE_def)
  have "\<forall>k < MAX_PINNED. \<not> (pinned hdr_pinned ! k) AND NOT IN_USE = 0x2010"
    by (simp add: hdr_pinned_def MAX_PINNED_def IN_USE_def nth_list_update)
  then have s1: "scan (\<lambda>e. e AND NOT IN_USE = 0x2010) (pinned hdr_pinned) 0 = None"
    by (rule scan_none)
  have f1: "free hdr_pinned 0x2010 = Inr (hdr_pinned\<lparr>freeList := [0x2010], objectsFree := 3\<rparr>)"
    using s1 by (simp add: free_def reclaim_def FreeSLList_insert_def Let_def isValid_def hdr0_def
        hdr_pinned_def Alignment_def)
  show ?thesis using construct_hdr0 run_hdr_pinned n f0 f1 by simp
qed

text \<open>
  C5, amended. \<open>free ptr\<close> compares the pin table entries, in-use bit masked off, with \<open>ptr\<close>
  itself. For a live pointer returned by \<open>malloc\<close> in a reachable state \<open>normalize ptr = ptr\<close>,
  so this is the comparison with \<open>normalize ptr\<close>: the first entry that matches has its in-use
  bit cleared and nothing else changes; with no match the slot is reclaimed. For any
  aligned pointer, interior ones included, that equals no entry, \<open>free\<close> reclaims at once,
  whatever slot \<open>normalize\<close> maps it to.
\<close>

theorem release_matches_pointer:
  assumes "ZeusSuperblockHeaderHelper e sz bufferSize st = Inr s0" and "fresh e bufferSize st"
    and "run once cs (s0, {}) = Inr (s, L)"
  shows "(\<forall>p \<in> L. normalize s p = Inr p \<and>
            (\<forall>i. scan (\<lambda>e. e AND NOT IN_USE = p) (pinned s) 0 = Some i \<longrightarrow>
               free s p = Inr (s\<lparr>pinned := (pinned s)[i := pinned s ! i AND NOT IN_USE]\<rparr>)) \<and>
            (scan (\<lambda>e. e AND NOT IN_USE = p) (pinned s) 0 = None \<longrightarrow> free s p = reclaim s p)) \<and>
         (\<forall>q. q mod Alignment = 0 \<and> scan (\<lambda>e. e AND NOT IN_USE = q) (pinned s) 0 = None \<longrightarrow>
            free s q = reclaim s q)"
proof (intro conjI ballI allI impI)
  have c: "consistent s L" using reachable_invariant(1) [OF assms] .
  have g: "geometry s" using c by (rule consistent_geometry)
  {
    fix p
    assume p: "p \<in> L"
    obtain k where k: "k < unat (totalObjects s)" "p = slot s k" using live_slot [OF c p] by auto
    have "unat (0 :: addr) < unat (objectSize s)" using g by (simp add: geometry_def)
    then have "normalize s (slot s k + 0) = Inr (slot s k)" using g k(1) by (intro normalize_slot)
    then show "normalize s p = Inr p" using k(2) by simp
    show "free s p = reclaim s p" if "scan (\<lambda>e. e AND NOT IN_USE = p) (pinned s) 0 = None"
      using c p that by (rule free_reclaim)
    show "free s p = Inr (s\<lparr>pinned := (pinned s)[i := pinned s ! i AND NOT IN_USE]\<rparr>)"
      if "scan (\<lambda>e. e AND NOT IN_USE = p) (pinned s) 0 = Some i" for i
      using c p that by (rule free_deferred(1))
  }
  fix q
  assume "q mod Alignment = 0 \<and> scan (\<lambda>e. e AND NOT IN_USE = q) (pinned s) 0 = None"
  moreover have "isValid s" using g by (simp add: geometry_def)
  ultimately show "free s q = reclaim s q" by (simp add: free_def)
qed

theorem release_matches_pointer_witness:
  "ZeusSuperblockHeaderHelper env0 64 256 0x2000 = Inr hdr0 \<and> fresh env0 256 0x2000 \<and>
   run False [Allocate, Allocate, Pin 0x2000] (hdr0, {}) = Inr (hdr_pinned, {0x2000, 0x2040}) \<and>
   normalize hdr_pinned 0x2000 = Inr 0x2000 \<and>
   scan (\<lambda>e. e AND NOT IN_USE = 0x2000) (pinned hdr_pinned) 0 = Some 0 \<and>
   free hdr_pinned 0x2000 =
     Inr (hdr_pinned\<lparr>pinned := (pinned hdr_pinned)[0 := pinned hdr_pinned ! 0 AND NOT IN_USE]\<rparr>)"
proof -
  have s0: "scan (\<lambda>e. e AND NOT IN_USE = 0x2000) (pinned hdr_pinned) 0 = Some 0"
    by (simp add: scan.simps [of _ _ 0] hdr_pinned_def MAX_PINNED_def IN_USE_def)
  have m: "(0x2000 :: addr) \<in> {0x2000, 0x2040}" by simp
  show ?thesis
    using release_matches_pointer [OF construct_hdr0 fresh_env0 run_hdr_pinned] m s0
      construct_hdr0 fresh_env0 run_hdr_pinned by blast
qed

section \<open>Allocating and releasing in a row\<close>

lemma drained_reset:
  assumes "consistent s L" "settled s" "objectsFree s = totalObjects s"
  shows "freeList s = []" "reapableObjects s = totalObjects s" "position s = start s"
    "align Alignment (start s) = start s" "L = {}" "deferred s = []"
proof -
  have g: "geometry s" using assms(1) by (rule consistent_geometry)
  show r: "reapableObjects s = totalObjects s" using assms(2,3) by (simp add: settled_def)
  then have z: "reaped s = 0" by (simp add: reaped_def)
  have "L \<union> set (freeList s @ deferred s) = slot s ` {..<reaped s}"
    using assms(1) by (simp add: consistent_def)
  then show "freeList s = []" "L = {}" "deferred s = []" using z by simp_all
  show "position s = start s" using assms(1) z by (simp add: consistent_def slot_def)
  show "align Alignment (start s) = start s" using g by (intro align_id) (simp add: geometry_def)
qed

lemma malloc_dynamic:
  assumes "malloc s = Inr (p, s1)"
  shows "s1 = s\<lparr>position := position s1, reapableObjects := reapableObjects s1,
                objectsFree := objectsFree s1, freeList := freeList s1\<rparr>"
  using assms
  by (auto simp add: malloc_def reapAlloc_def freeListAlloc_def Let_def
      split: if_splits sum.splits prod.splits)

lemma reclaim_dynamic:
  assumes "reclaim s p = Inr s1"
  shows "s1 = s\<lparr>position := position s1, reapableObjects := reapableObjects s1,
                objectsFree := objectsFree s1, freeList := freeList s1\<rparr>"
  using assms
  by (auto simp add: reclaim_def clear_def Let_def split: if_splits)

lemma malloc_n_reap:
  "consistent s L \<Longrightarrow> settled s \<Longrightarrow> n \<le> unat (reapableObjects s) \<Longrightarrow>
   \<exists>s1. malloc_n n s = Inr (map (\<lambda>i. slot s (reaped s + i)) [0..<n], s1) \<and>
     consistent s1 (L \<union> slot s ` {reaped s..<reaped s + n}) \<and> settled s1 \<and>
     unat (reapableObjects s1) = unat (reapableObjects s) - n \<and>
     freeList s1 = freeList s \<and>
     s1 = s\<lparr>position := position s1, reapableObjects := reapableObjects s1,
            objectsFree := objectsFree s1, freeList := freeList s1\<rparr>"
proof (induction n arbitrary: s L)
  case 0
  then show ?case by simp
next
  case (Suc n)
  let ?s = "s\<lparr>position := position s + objectSize s,
             reapableObjects := reapableObjects s - 1,
             objectsFree := objectsFree s - 1\<rparr>"
  have r0: "reapableObjects s \<noteq> 0" using Suc.prems(3) by auto
  have m: "malloc s = Inr (position s, ?s)" using Suc.prems(1) r0 by (rule malloc_reap)
  have c: "consistent ?s (insert (position s) L)" using Suc.prems(1) r0 by (rule consistent_reap)
  have st: "settled ?s" using malloc_settled [OF Suc.prems(1,2) m] .
  have p: "position s = slot s (reaped s)" using Suc.prems(1) by (simp add: consistent_def)
  have r: "unat (reapableObjects ?s) = unat (reapableObjects s) - 1"
    using r0 by (simp add: unat_minus_one)
  have rt: "unat (reapableObjects s) \<le> unat (totalObjects s)"
    using Suc.prems(1) by (simp add: consistent_def)
  have n: "reaped (s\<lparr>position := a, reapableObjects := reapableObjects s - 1,
             objectsFree := objectsFree s - 1\<rparr>) = Suc (reaped s)" for a
    using r rt Suc.prems(3) by (simp add: reaped_def)
  have le: "n \<le> unat (reapableObjects ?s)" using r Suc.prems(3) by simp
  obtain s1 where s1: "malloc_n n ?s = Inr (map (\<lambda>i. slot ?s (reaped ?s + i)) [0..<n], s1)"
    "consistent s1 (insert (position s) L \<union> slot ?s ` {reaped ?s..<reaped ?s + n})"
    "settled s1"
    "unat (reapableObjects s1) = unat (reapableObjects ?s) - n"
    "freeList s1 = freeList ?s"
    "s1 = ?s\<lparr>position := position s1, reapableObjects := reapableObjects s1,
            objectsFree := objectsFree s1, freeList := freeList s1\<rparr>"
    using Suc.IH [OF c st le] by blast
  have l: "map (\<lambda>i. slot s (reaped s + i)) [0..<Suc n]
      = slot s (reaped s) # map (\<lambda>i. slot s (Suc (reaped s) + i)) [0..<n]"
    by (simp only: map_upt_Suc) simp
  have e: "insert (slot s (reaped s)) L \<union> slot s ` {Suc (reaped s)..<Suc (reaped s) + n}
      = L \<union> slot s ` {reaped s..<reaped s + Suc n}"
  proof -
    have "{reaped s..<reaped s + Suc n} = insert (reaped s) {Suc (reaped s)..<Suc (reaped s) + n}"
      by auto
    then show ?thesis by auto
  qed
  have "malloc_n (Suc n) s
      = Inr (slot s (reaped s) # map (\<lambda>i. slot s (Suc (reaped s) + i)) [0..<n], s1)"
    using m s1(1) by (simp add: n p)
  then have 1: "malloc_n (Suc n) s = Inr (map (\<lambda>i. slot s (reaped s + i)) [0..<Suc n], s1)"
    by (simp only: l)
  have "consistent s1 (insert (slot s (reaped s)) L \<union>
      slot s ` {Suc (reaped s)..<Suc (reaped s) + n})"
    using s1(2) by (simp add: n p)
  then have 2: "consistent s1 (L \<union> slot s ` {reaped s..<reaped s + Suc n})"
    by (simp only: e)
  have 3: "unat (reapableObjects s1) = unat (reapableObjects s) - Suc n" using s1(4) r by simp
  have 4: "freeList s1 = freeList s" using s1(5) by simp
  have 5: "s1 = s\<lparr>position := position s1, reapableObjects := reapableObjects s1,
            objectsFree := objectsFree s1, freeList := freeList s1\<rparr>"
    by (subst s1(6)) simp
  show ?case using 1 2 s1(3) 3 4 5 by blast
qed

lemma free_unpinned:
  assumes "consistent s L" "p \<in> L" "\<forall>k < MAX_PINNED. pinned s ! k = 0"
  shows "free s p = reclaim s p"
proof -
  have g: "geometry s" using assms(1) by (rule consistent_geometry)
  obtain k where k: "k < unat (totalObjects s)" "p = slot s k" using live_slot [OF assms(1,2)] by auto
  have nz: "p \<noteq> 0" unfolding k(2) using g k(1) by (intro slot_nonzero) simp_all
  have "\<forall>k < MAX_PINNED. \<not> pinned s ! k AND NOT IN_USE = p" using assms(3) nz by auto
  then have "scan (\<lambda>e. e AND NOT IN_USE = p) (pinned s) 0 = None" by (rule scan_none)
  then show ?thesis using assms(1,2) by (intro free_reclaim)
qed

lemma free_all_live:
  "consistent s L \<Longrightarrow> settled s \<Longrightarrow> distinct qs \<Longrightarrow> set qs \<subseteq> L \<Longrightarrow>
   \<forall>k < MAX_PINNED. pinned s ! k = 0 \<Longrightarrow>
   \<exists>s1. free_all qs s = Inr s1 \<and> consistent s1 (L - set qs) \<and> settled s1 \<and>
     pinned s1 = pinned s \<and>
     s1 = s\<lparr>position := position s1, reapableObjects := reapableObjects s1,
            objectsFree := objectsFree s1, freeList := freeList s1\<rparr>"
proof (induction qs arbitrary: s L)
  case Nil
  then show ?case by simp
next
  case (Cons q qs)
  have q: "q \<in> L" using Cons.prems(4) by simp
  have f: "free s q = reclaim s q" using Cons.prems(1) q Cons.prems(5) by (rule free_unpinned)
  obtain s2 where s2: "reclaim s q = Inr s2" "consistent s2 (L - {q})" "pinned s2 = pinned s"
    using reclaim_consistent [OF Cons.prems(1) q] by blast
  have st: "settled s2" using reclaim_settled [OF Cons.prems(1) q s2(1)] .
  have d: "s2 = s\<lparr>position := position s2, reapableObjects := reapableObjects s2,
            objectsFree := objectsFree s2, freeList := freeList s2\<rparr>"
    using s2(1) by (rule reclaim_dynamic)
  have sub: "set qs \<subseteq> L - {q}" using Cons.prems(3,4) by auto
  have z: "\<forall>k < MAX_PINNED. pinned s2 ! k = 0" using Cons.prems(5) s2(3) by simp
  have dq: "distinct qs" using Cons.prems(3) by simp
  obtain s1 where s1: "free_all qs s2 = Inr s1" "consistent s1 (L - {q} - set qs)" "settled s1"
    "pinned s1 = pinned s2"
    "s1 = s2\<lparr>position := position s1, reapableObjects := reapableObjects s1,
            objectsFree := objectsFree s1, freeList := freeList s1\<rparr>"
    using Cons.IH [OF s2(2) st dq sub z] by blast
  have 1: "free_all (q # qs) s = Inr s1" using f s2(1) s1(1) by simp
  have "L - {q} - set qs = L - set (q # qs)" by auto
  then have 2: "consistent s1 (L - set (q # qs))" using s1(2) by simp
  have 3: "pinned s1 = pinned s" using s1(4) s2(3) by simp
  have 4: "s1 = s\<lparr>position := position s1, reapableObjects := reapableObjects s1,
            objectsFree := objectsFree s1, freeList := freeList s1\<rparr>"
    by (subst s1(5), subst d) simp
  show ?case using 1 2 s1(3) 3 4 by blast
qed

lemma free_all_append:
  "free_all (xs @ ys) s = (case free_all xs s of Inl f \<Rightarrow> Inl f | Inr s1 \<Rightarrow> free_all ys s1)"
  by (induction xs arbitrary: s) (auto split: sum.splits)

section \<open>Full drain\<close>


lemma fresh_table:
  assumes "ZeusSuperblockHeaderHelper e sz bufferSize st = Inr s" "fresh e bufferSize st"
  shows "\<forall>k < MAX_PINNED. pinned s ! k = 0"
proof -
  have "\<forall>i \<in> set [0..<MAX_PINNED]. env_pinned e i = 0"
    using assms(2) by (simp add: fresh_def list_all_iff)
  then show ?thesis using constructed_fields(10) [OF assms(1)] by simp
qed

lemma empty_table_deferred:
  assumes "length (pinned s) = MAX_PINNED" "\<forall>k < MAX_PINNED. pinned s ! k = 0"
  shows "deferred s = []"
proof -
  have "\<forall>x \<in> set (pinned s). x = 0" using assms by (auto simp add: in_set_conv_nth)
  then show ?thesis by (auto simp add: deferred_def filter_empty_conv)
qed

lemma dynamic_fields:
  assumes "s1 = s\<lparr>position := a, reapableObjects := b, objectsFree := c, freeList := d\<rparr>"
  shows "s1\<lparr>freeList := l, objectsFree := x, reapableObjects := y, position := z\<rparr>
       = s\<lparr>freeList := l, objectsFree := x, reapableObjects := y, position := z\<rparr>"
    and "totalObjects s1 = totalObjects s" and "start s1 = start s" and "pinned s1 = pinned s"
  by (simp_all add: assms)

text \<open>
  C3 (full-drain reset). For a superblock built in fresh memory:
  in every reachable state, \<open>objectsFree = totalObjects\<close> implies that the free list is empty,
  \<open>reapableObjects = totalObjects\<close>, the cursor is at the aligned start of the slot region,
  and no pointer is live;
  and allocating all \<open>totalObjects\<close> slots succeeds with distinct non-null pointers, after
  which releasing them in any order ends in \<open>clear()\<close> at the last release and leaves exactly
  the header the constructor made, so that the next \<open>malloc\<close> returns the pointer the very
  first one returned.
\<close>

theorem full_drain_reset:
  assumes "ZeusSuperblockHeaderHelper e sz bufferSize st = Inr s0" and "fresh e bufferSize st"
  shows "(\<forall>cs s L. run once cs (s0, {}) = Inr (s, L) \<and> objectsFree s = totalObjects s \<longrightarrow>
            freeList s = [] \<and> reapableObjects s = totalObjects s \<and>
            position s = align Alignment (start s) \<and> position s = start s \<and> L = {}) \<and>
         (\<exists>ps s1. malloc_n (unat (totalObjects s0)) s0 = Inr (ps, s1) \<and>
            length ps = unat (totalObjects s0) \<and> distinct ps \<and> 0 \<notin> set ps \<and>
            (\<forall>qs q. distinct (qs @ [q]) \<and> set (qs @ [q]) = set ps \<longrightarrow>
               (\<exists>s2 s3. free_all qs s1 = Inr s2 \<and>
                  free s2 q = clear (s2\<lparr>freeList := FreeSLList_insert q (freeList s2),
                                        objectsFree := objectsFree s2 + 1\<rparr>) \<and>
                  free_all (qs @ [q]) s1 = Inr s0 \<and>
                  objectsFree s0 = totalObjects s0 \<and> freeList s0 = [] \<and>
                  malloc s0 = Inr (hd ps, s3))))"
proof (rule conjI)
  show "\<forall>cs s L. run once cs (s0, {}) = Inr (s, L) \<and> objectsFree s = totalObjects s \<longrightarrow>
            freeList s = [] \<and> reapableObjects s = totalObjects s \<and>
            position s = align Alignment (start s) \<and> position s = start s \<and> L = {}"
  proof (intro allI impI)
    fix cs s L
    assume a: "run once cs (s0, {}) = Inr (s, L) \<and> objectsFree s = totalObjects s"
    then have r: "run once cs (s0, {}) = Inr (s, L)" and f: "objectsFree s = totalObjects s"
      by simp_all
    note i = reachable_invariant [OF assms r]
    note d = drained_reset [OF i f]
    show "freeList s = [] \<and> reapableObjects s = totalObjects s \<and>
            position s = align Alignment (start s) \<and> position s = start s \<and> L = {}"
      using d by simp
  qed
next
  let ?T = "unat (totalObjects s0)"
  let ?ps = "map (\<lambda>i. slot s0 (reaped s0 + i)) [0..<?T]"
  note f = constructed_fields [OF assms(1)]
  have c0: "consistent s0 {}" using assms by (rule constructed_consistent)
  have st0: "settled s0" using assms(1) by (rule constructed_settled)
  have g0: "geometry s0" using c0 by (rule consistent_geometry)
  have r0: "reaped s0 = 0" using f(6) by (simp add: reaped_def)
  have le: "?T \<le> unat (reapableObjects s0)" using f(6) by simp
  obtain s1 where s1: "malloc_n ?T s0 = Inr (?ps, s1)"
    "consistent s1 ({} \<union> slot s0 ` {reaped s0..<reaped s0 + ?T})" "settled s1"
    "s1 = s0\<lparr>position := position s1, reapableObjects := reapableObjects s1,
            objectsFree := objectsFree s1, freeList := freeList s1\<rparr>"
    using malloc_n_reap [OF c0 st0 le] by blast
  have set_ps: "set ?ps = slot s0 ` {0..<?T}" using r0 by simp
  have c1: "consistent s1 (set ?ps)" using s1(2) r0 by simp
  have len: "length ?ps = ?T" by simp
  have inj: "inj_on (slot s0) {0..<?T}"
  proof (rule inj_onI)
    fix k j
    assume "k \<in> {0..<?T}" "j \<in> {0..<?T}" and e: "slot s0 k = slot s0 j"
    then have "k \<le> ?T" "j \<le> ?T" by simp_all
    then show "k = j" using e by (intro slot_inj [OF g0])
  qed
  have dist: "distinct ?ps" using inj r0 by (simp add: distinct_map)
  have nz: "0 \<notin> set ?ps"
  proof
    assume "0 \<in> set ?ps"
    then obtain k where "k < ?T" "slot s0 k = 0" using r0 by auto
    then show False using slot_nonzero [OF g0, of k] by simp
  qed
  have p1: "pinned s1 = pinned s0" by (rule dynamic_fields(4) [OF s1(4)])
  have t1: "totalObjects s1 = totalObjects s0" by (rule dynamic_fields(2) [OF s1(4)])
  have z0: "\<forall>k < MAX_PINNED. pinned s0 ! k = 0" using assms by (rule fresh_table)
  have z1: "\<forall>k < MAX_PINNED. pinned s1 ! k = 0" using z0 p1 by simp
  have tail: "\<exists>s2 s3. free_all qs s1 = Inr s2 \<and>
                  free s2 q = clear (s2\<lparr>freeList := FreeSLList_insert q (freeList s2),
                                        objectsFree := objectsFree s2 + 1\<rparr>) \<and>
                  free_all (qs @ [q]) s1 = Inr s0 \<and>
                  objectsFree s0 = totalObjects s0 \<and> freeList s0 = [] \<and>
                  malloc s0 = Inr (hd ?ps, s3)"
    if h: "distinct (qs @ [q]) \<and> set (qs @ [q]) = set ?ps" for qs q
  proof -
    have dq: "distinct qs" and sub: "set qs \<subseteq> set ?ps" and rest: "set ?ps - set qs = {q}"
      using h by auto
    obtain s2 where s2: "free_all qs s1 = Inr s2" "consistent s2 (set ?ps - set qs)" "settled s2"
      "pinned s2 = pinned s1"
      "s2 = s1\<lparr>position := position s2, reapableObjects := reapableObjects s2,
            objectsFree := objectsFree s2, freeList := freeList s2\<rparr>"
      using free_all_live [OF c1 s1(3) dq sub z1] by blast
    have c2: "consistent s2 {q}" using s2(2) rest by simp
    have z2: "\<forall>k < MAX_PINNED. pinned s2 ! k = 0" using z1 s2(4) by simp
    have "length (pinned s2) = MAX_PINNED"
      using consistent_geometry [OF c2] by (simp add: geometry_def)
    then have d2: "deferred s2 = []" using z2 by (rule empty_table_deferred)
    have t2: "totalObjects s2 = totalObjects s0" using t1 dynamic_fields(2) [OF s2(5)] by simp
    have cnt: "unat (objectsFree s2) + 1 = unat (totalObjects s2)"
      using free_le_total [OF c2] d2 by simp
    then have "unat (objectsFree s2) + 1 < 2 ^ 32" using unat_uint_less [of "totalObjects s2"] by simp
    then have "unat (objectsFree s2 + 1) = unat (totalObjects s2)"
      using cnt by (simp add: unat_word_ariths)
    then have eq: "objectsFree s2 + 1 = totalObjects s2" by (simp add: word_unat_eq_iff)
    have fr: "free s2 q = reclaim s2 q" using c2 _ z2 by (rule free_unpinned) simp
    have cl: "reclaim s2 q = clear (s2\<lparr>freeList := FreeSLList_insert q (freeList s2),
                                        objectsFree := objectsFree s2 + 1\<rparr>)"
      using eq by (simp add: reclaim_def Let_def)
    obtain s3 where s3: "reclaim s2 q = Inr s3"
      "s3 = s2\<lparr>freeList := [], objectsFree := totalObjects s2,
                        reapableObjects := totalObjects s2, position := start s2\<rparr>"
      using reclaim_consistent [OF c2, of q] cnt by auto
    have "s3 = s2\<lparr>freeList := [], objectsFree := totalObjects s0,
                        reapableObjects := totalObjects s0, position := start s0\<rparr>"
      using s3(2) dynamic_fields(2,3) [OF s2(5)] dynamic_fields(2,3) [OF s1(4)] by simp
    also have "\<dots> = s1\<lparr>freeList := [], objectsFree := totalObjects s0,
                        reapableObjects := totalObjects s0, position := start s0\<rparr>"
      by (rule dynamic_fields(1) [OF s2(5)])
    also have "\<dots> = s0\<lparr>freeList := [], objectsFree := totalObjects s0,
                        reapableObjects := totalObjects s0, position := start s0\<rparr>"
      by (rule dynamic_fields(1) [OF s1(4)])
    finally have "s3 = s0\<lparr>freeList := [], objectsFree := totalObjects s0,
                        reapableObjects := totalObjects s0, position := start s0\<rparr>" .
    then have "s3 = s0\<lparr>freeList := freeList s0, objectsFree := objectsFree s0,
                        reapableObjects := reapableObjects s0, position := position s0\<rparr>"
      using f(6,7,8,9,12) by simp
    then have e0: "s3 = s0" by simp
    have all: "free_all (qs @ [q]) s1 = Inr s0"
      using s2(1) fr s3(1) e0 by (simp add: free_all_append)
    have "?ps \<noteq> []" using h by auto
    then have T0: "0 < ?T" by simp
    then have "reapableObjects s0 \<noteq> 0" using f(6) by (auto simp add: unat_gt_0 [symmetric] simp del: unat_gt_0)
    then have m: "malloc s0 = Inr (position s0,
           s0\<lparr>position := position s0 + objectSize s0,
             reapableObjects := reapableObjects s0 - 1,
             objectsFree := objectsFree s0 - 1\<rparr>)"
      using c0 by (intro malloc_reap)
    have "hd ?ps = slot s0 0" using T0 r0 by (simp add: hd_map upt_conv_Cons)
    then have "hd ?ps = position s0" using f(8,9) by (simp add: slot_def)
    then show ?thesis using s2(1) fr cl all f(7,12) m by simp
  qed
  show "\<exists>ps s1. malloc_n ?T s0 = Inr (ps, s1) \<and>
            length ps = ?T \<and> distinct ps \<and> 0 \<notin> set ps \<and>
            (\<forall>qs q. distinct (qs @ [q]) \<and> set (qs @ [q]) = set ps \<longrightarrow>
               (\<exists>s2 s3. free_all qs s1 = Inr s2 \<and>
                  free s2 q = clear (s2\<lparr>freeList := FreeSLList_insert q (freeList s2),
                                        objectsFree := objectsFree s2 + 1\<rparr>) \<and>
                  free_all (qs @ [q]) s1 = Inr s0 \<and>
                  objectsFree s0 = totalObjects s0 \<and> freeList s0 = [] \<and>
                  malloc s0 = Inr (hd ps, s3)))"
    using s1(1) len dist nz tail by (intro exI [of _ ?ps] exI [of _ s1]) blast
qed

lemma malloc_n_hdr0:
  "malloc_n (unat (totalObjects hdr0)) hdr0 = Inr ([0x2000, 0x2040, 0x2080, 0x20c0], hdr_all)"
proof -
  let ?h1 = "hdr0\<lparr>position := 0x2040, reapableObjects := 3, objectsFree := 3\<rparr>"
  let ?h2 = "hdr0\<lparr>position := 0x2080, reapableObjects := 2, objectsFree := 2\<rparr>"
  let ?h3 = "hdr0\<lparr>position := 0x20c0, reapableObjects := 1, objectsFree := 1\<rparr>"
  have m2: "malloc ?h1 = Inr (0x2040, ?h2)"
    by (simp add: malloc_def reapAlloc_def getSize_def isValid_def hdr0_def Let_def Alignment_def)
  have m3: "malloc ?h2 = Inr (0x2080, ?h3)"
    by (simp add: malloc_def reapAlloc_def getSize_def isValid_def hdr0_def Let_def Alignment_def)
  have m4: "malloc ?h3 = Inr (0x20c0, hdr_all)"
    by (simp add: malloc_def reapAlloc_def getSize_def isValid_def hdr0_def hdr_all_def Let_def
        Alignment_def)
  have "unat (totalObjects hdr0) = Suc (Suc (Suc (Suc 0)))" by (simp add: hdr0_def)
  then show ?thesis using malloc_hdr0 m2 m3 m4 by simp
qed

theorem full_drain_reset_witness:
  "ZeusSuperblockHeaderHelper env0 64 256 0x2000 = Inr hdr0 \<and> fresh env0 256 0x2000 \<and>
   run False [] (hdr0, {}) = Inr (hdr0, {}) \<and> objectsFree hdr0 = totalObjects hdr0 \<and>
   freeList hdr0 = [] \<and> position hdr0 = start hdr0 \<and>
   malloc_n (unat (totalObjects hdr0)) hdr0 = Inr ([0x2000, 0x2040, 0x2080, 0x20c0], hdr_all) \<and>
   free_all [0x2080, 0x2000, 0x20c0, 0x2040] hdr_all = Inr hdr0 \<and>
   (\<exists>s3. malloc hdr0 = Inr (0x2000, s3))"
proof -
  note t = full_drain_reset [OF construct_hdr0 fresh_env0, of False]
  have r: "run False [] (hdr0, {}) = Inr (hdr0, {})" by simp
  have o: "objectsFree hdr0 = totalObjects hdr0" by (simp add: hdr0_def)
  have a: "freeList hdr0 = [] \<and> position hdr0 = start hdr0" using t r o by blast
  obtain ps s1 where ps: "malloc_n (unat (totalObjects hdr0)) hdr0 = Inr (ps, s1)"
    and q: "\<forall>qs q. distinct (qs @ [q]) \<and> set (qs @ [q]) = set ps \<longrightarrow>
               (\<exists>s2 s3. free_all qs s1 = Inr s2 \<and>
                  free s2 q = clear (s2\<lparr>freeList := FreeSLList_insert q (freeList s2),
                                        objectsFree := objectsFree s2 + 1\<rparr>) \<and>
                  free_all (qs @ [q]) s1 = Inr hdr0 \<and>
                  objectsFree hdr0 = totalObjects hdr0 \<and> freeList hdr0 = [] \<and>
                  malloc hdr0 = Inr (hd ps, s3))"
    using t by blast
  have e: "ps = [0x2000, 0x2040, 0x2080, 0x20c0]" "s1 = hdr_all"
    using ps malloc_n_hdr0 by simp_all
  have d: "distinct ([0x2080, 0x2000, 0x20c0] @ [0x2040 :: addr]) \<and>
      set ([0x2080, 0x2000, 0x20c0] @ [0x2040 :: addr]) = set ps"
    unfolding e by auto
  obtain s3 where "free_all ([0x2080, 0x2000, 0x20c0] @ [0x2040]) s1 = Inr hdr0"
    "malloc hdr0 = Inr (hd ps, s3)"
    using q d by blast
  then have b: "free_all [0x2080, 0x2000, 0x20c0, 0x2040] hdr_all = Inr hdr0"
    "malloc hdr0 = Inr (0x2000, s3)"
    unfolding e by simp_all
  show ?thesis using construct_hdr0 fresh_env0 r o a malloc_n_hdr0 b by blast
qed

section \<open>Deferred release\<close>

lemma scan_first:
  assumes "i < MAX_PINNED" "P (t ! i)" "\<forall>k < i. \<not> P (t ! k)"
  shows "scan P t 0 = Some i"
proof -
  obtain j where j: "scan P t 0 = Some j" using scan_found [of i P t] assms(1,2) by blast
  have "j = i"
  proof (rule ccontr)
    assume "j \<noteq> i"
    then consider "j < i" | "i < j" by linarith
    then show False
    proof cases
      case 1
      then show ?thesis using assms(3) scan_Some [OF j] by auto
    next
      case 2
      then show ?thesis using assms(2) scan_Some [OF j] by auto
    qed
  qed
  then show ?thesis using j by simp
qed

lemma scan_update:
  assumes "scan P t 0 = Some i" "P v" "i < length t"
  shows "scan P (t[i := v]) 0 = Some i"
proof (rule scan_first)
  show "i < MAX_PINNED" using scan_Some [OF assms(1)] by simp
  show "P (t[i := v] ! i)" using assms(2,3) by simp
  show "\<forall>k < i. \<not> P (t[i := v] ! k)" using scan_Some [OF assms(1)] by simp
qed

lemma malloc_n_snoc:
  "malloc_n n s = Inr (ps, s1) \<Longrightarrow> malloc s1 = Inr (p, s2) \<Longrightarrow>
     malloc_n (Suc n) s = Inr (ps @ [p], s2)"
proof (induction n arbitrary: s ps)
  case 0
  then show ?case by simp
next
  case (Suc n)
  obtain q sa where q: "malloc s = Inr (q, sa)"
    using Suc.prems(1) by (auto split: sum.splits)
  then obtain qs where qs: "malloc_n n sa = Inr (qs, s1)" "ps = q # qs"
    using Suc.prems(1) by (auto split: sum.splits)
  have "malloc_n (Suc n) sa = Inr (qs @ [p], s2)" using qs(1) Suc.prems(2) by (rule Suc.IH)
  then show ?case using q qs(2) by simp
qed

lemma step_deferred_stays:
  assumes "consistent s L" "A \<in> set (deferred s)" "step once c (s, L) = Inr (s1, L1)"
    and "\<forall>q. c \<noteq> Unpin q"
  shows "A \<in> set (deferred s1)"
proof (cases c)
  case Allocate
  then obtain p where "malloc s = Inr (p, s1)" using assms(3) by (auto split: sum.splits)
  then have "pinned s1 = pinned s" using malloc_static by blast
  then show ?thesis using assms(2) by (simp add: deferred_def)
next
  case (Release p)
  then have "p \<in> L" "free s p = Inr s1" using assms(3) by (auto split: sum.splits if_splits)
  then show ?thesis using free_consistent [OF assms(1), of p] assms(2) by auto
next
  case (Pin p)
  then have "pin s p = Inr s1" using assms(3) by (auto split: sum.splits if_splits)
  then show ?thesis using pin_consistent(2) [OF assms(1)] assms(2) by simp
next
  case (Unpin p)
  then show ?thesis using assms(4) by simp
qed

lemma run_deferred_stays:
  "consistent s L \<Longrightarrow> A \<in> set (deferred s) \<Longrightarrow> run once cs (s, L) = Inr (s1, L1) \<Longrightarrow>
   \<forall>c \<in> set cs. \<forall>q. c \<noteq> Unpin q \<Longrightarrow> A \<in> set (deferred s1)"
proof (induction cs arbitrary: s L)
  case Nil
  then show ?case by simp
next
  case (Cons c cs)
  then obtain s2 L2 where a: "step once c (s, L) = Inr (s2, L2)"
    and b: "run once cs (s2, L2) = Inr (s1, L1)"
    by (auto split: sum.splits)
  have c2: "consistent s2 L2" using Cons.prems(1) a by (rule step_consistent)
  have "\<forall>q. c \<noteq> Unpin q" using Cons.prems(4) by simp
  then have d2: "A \<in> set (deferred s2)"
    using step_deferred_stays [OF Cons.prems(1,2) a] by simp
  have "\<forall>c \<in> set cs. \<forall>q. c \<noteq> Unpin q" using Cons.prems(4) by simp
  then show ?case using Cons.IH [OF c2 d2 b] by simp
qed

lemma deferred_not_returned:
  assumes "consistent s L" "A \<in> set (deferred s)" "malloc s = Inr (p, s1)"
  shows "p \<noteq> A"
proof (cases "p = 0")
  case True
  obtain k where "k < unat (totalObjects s)" "A = slot s k"
    using consistent_slots [OF assms(1), of A] assms(2) by auto
  then have "A \<noteq> 0" using slot_nonzero [OF consistent_geometry [OF assms(1)], of k] by simp
  then show ?thesis using True by simp
next
  case False
  then have c1: "consistent s1 (insert p L)" using malloc_consistent(1) [OF assms(1,3)] by simp
  have "pinned s1 = pinned s" using malloc_static [OF assms(3)] by simp
  then have "A \<in> set (deferred s1)" using assms(2) by (simp add: deferred_def)
  then show ?thesis using c1 by (auto simp add: consistent_def)
qed

text \<open>A slot on the free list, or in a superblock just reset, is handed out again.\<close>

lemma returnable_from_list:
  assumes "consistent s L" "settled s" "freeList s = A # l"
  shows "\<exists>n ps s1. malloc_n (Suc n) s = Inr (ps @ [A], s1)"
proof -
  obtain s1 where s1: "malloc_n (unat (reapableObjects s)) s
      = Inr (map (\<lambda>i. slot s (reaped s + i)) [0..<unat (reapableObjects s)], s1)"
    "consistent s1 (L \<union> slot s ` {reaped s..<reaped s + unat (reapableObjects s)})"
    "unat (reapableObjects s1) = unat (reapableObjects s) - unat (reapableObjects s)"
    "freeList s1 = freeList s"
    using malloc_n_reap [OF assms(1,2), of "unat (reapableObjects s)"] by blast
  have "reapableObjects s1 = 0" using s1(3) by (simp add: unat_eq_0)
  then have "malloc s1 = Inr (A, s1\<lparr>freeList := l, objectsFree := objectsFree s1 - 1\<rparr>)"
    using s1(2,4) assms(3) by (intro malloc_list) simp_all
  then show ?thesis using malloc_n_snoc [OF s1(1)] by blast
qed

lemma returnable_after_reset:
  assumes "consistent s L" "settled s" "reapableObjects s = totalObjects s"
    and "k < unat (totalObjects s)"
  shows "\<exists>n ps s1. malloc_n (Suc n) s = Inr (ps @ [slot s k], s1)"
proof -
  have r0: "reaped s = 0" using assms(3) by (simp add: reaped_def)
  have le: "k \<le> unat (reapableObjects s)" using assms(3,4) by simp
  obtain s1 where s1: "malloc_n k s = Inr (map (\<lambda>i. slot s (reaped s + i)) [0..<k], s1)"
    "consistent s1 (L \<union> slot s ` {reaped s..<reaped s + k})"
    "unat (reapableObjects s1) = unat (reapableObjects s) - k"
    "s1 = s\<lparr>position := position s1, reapableObjects := reapableObjects s1,
            objectsFree := objectsFree s1, freeList := freeList s1\<rparr>"
    using malloc_n_reap [OF assms(1,2) le] by blast
  have t: "totalObjects s1 = totalObjects s" by (rule dynamic_fields(2) [OF s1(4)])
  have "slot s1 = slot s"
    by (subst s1(4)) (simp add: slot_def fun_eq_iff)
  moreover have "reaped s1 = k" using s1(3) t assms(3,4) by (simp add: reaped_def)
  ultimately have p: "position s1 = slot s k" using s1(2) by (simp add: consistent_def)
  have "0 < unat (reapableObjects s1)" using s1(3) assms(3,4) by simp
  then have "reapableObjects s1 \<noteq> 0" by (simp add: unat_gt_0)
  then have "malloc s1 = Inr (position s1,
           s1\<lparr>position := position s1 + objectSize s1,
             reapableObjects := reapableObjects s1 - 1,
             objectsFree := objectsFree s1 - 1\<rparr>)"
    using s1(2) by (intro malloc_reap)
  then show ?thesis using malloc_n_snoc [OF s1(1)] p by auto
qed

lemma normalize_pinned: "normalize (s\<lparr>pinned := t\<rparr>) p = normalize s p"
  by (simp add: normalize_def isValid_def Let_def)

text \<open>
  C1 (deferred free). In a state a client can reach from a superblock built in fresh memory,
  let \<open>A\<close> be a live pointer returned by \<open>malloc\<close> and let \<open>pin A\<close> succeed. Then \<open>free A\<close>
  succeeds and only clears the in-use bit of the first pin table entry naming \<open>A\<close>:
  \<open>objectsFree\<close> and the free list are unchanged and \<open>A\<close> is not on the free list. Whatever
  calls other than \<open>unpin\<close> follow, no \<open>malloc\<close> returns \<open>A\<close>. A following \<open>unpin A\<close> succeeds:
  it reclaims \<open>A\<close> (links it into the free list, counts it, and resets the superblock if
  that made every slot free) from the header with that entry zeroed, so \<open>objectsFree\<close> grows by
  exactly one and the entry is zero; and some later \<open>malloc\<close> in a row of \<open>malloc\<close> calls
  returns \<open>A\<close>.
\<close>

theorem deferred_free:
  assumes "ZeusSuperblockHeaderHelper e sz bufferSize st = Inr s0" and "fresh e bufferSize st"
    and "run once cs (s0, {}) = Inr (s, L)"
    and "A \<in> L" and "pin s A = Inr s1"
  shows "\<exists>i s2 s3.
      scan (\<lambda>e. e AND NOT IN_USE = A) (pinned s1) 0 = Some i \<and>
      free s1 A = Inr s2 \<and>
      s2 = s1\<lparr>pinned := (pinned s1)[i := pinned s1 ! i AND NOT IN_USE]\<rparr> \<and>
      objectsFree s2 = objectsFree s \<and> freeList s2 = freeList s \<and> A \<notin> set (freeList s2) \<and>
      (\<forall>cs1 s' L' q s''.
          (\<forall>c \<in> set cs1. \<forall>x. c \<noteq> Unpin x) \<and> run once cs1 (s2, L - {A}) = Inr (s', L') \<and>
          malloc s' = Inr (q, s'') \<longrightarrow> q \<noteq> A) \<and>
      unpin s2 A = Inr s3 \<and>
      reclaim (s2\<lparr>pinned := (pinned s2)[i := 0]\<rparr>) A = Inr s3 \<and>
      unat (objectsFree s3) = unat (objectsFree s) + 1 \<and>
      pinned s3 = (pinned s2)[i := 0] \<and> pinned s3 ! i = 0 \<and>
      (freeList s3 = A # freeList s \<or>
       (freeList s3 = [] \<and> reapableObjects s3 = totalObjects s3 \<and> position s3 = start s3)) \<and>
      (\<exists>n ps s4. malloc_n (Suc n) s3 = Inr (ps @ [A], s4))"
proof -
  note inv = reachable_invariant [OF assms(1-3)]
  have g: "geometry s" using inv(1) by (rule consistent_geometry)
  have v: "isValid s" and len: "length (pinned s) = MAX_PINNED" using g by (simp_all add: geometry_def)
  obtain k where k: "k < unat (totalObjects s)" "A = slot s k" using live_slot [OF inv(1) assms(4)] by auto
  have nzA: "A \<noteq> 0" unfolding k(2) using g k(1) by (intro slot_nonzero) simp_all
  have "A mod Alignment = 0" unfolding k(2) using g k(1) by (rule slot_aligned)
  then have evA: "A AND 1 = 0" by (rule aligned_even)
  have "unat (0 :: addr) < unat (objectSize s)" using g by (simp add: geometry_def)
  then have "normalize s (slot s k + 0) = Inr (slot s k)" using g k(1) by (intro normalize_slot)
  then have nA: "normalize s A = Inr A" using k(2) by simp
  obtain i0 where i0: "scan (\<lambda>e. e = 0) (pinned s) 0 = Some i0"
    and s1: "s1 = s\<lparr>pinned := (pinned s)[i0 := A OR IN_USE]\<rparr>"
    using assms(5) pin_result [OF v nA] by (auto split: option.splits)
  have c1: "consistent s1 L" using pin_consistent(1) [OF inv(1) assms(5)] .
  have st1: "settled s1" using pin_settled [OF inv(2) assms(5)] .
  have len1: "length (pinned s1) = MAX_PINNED" using len s1 by simp
  have i0l: "i0 < MAX_PINNED" using scan_Some [OF i0] by simp
  have "pinned s1 ! i0 AND NOT IN_USE = A"
    using s1 i0l len set_flag_mask [OF evA] by simp
  then obtain i where i: "scan (\<lambda>e. e AND NOT IN_USE = A) (pinned s1) 0 = Some i"
    using scan_found [of i0 "\<lambda>e. e AND NOT IN_USE = A" "pinned s1"] i0l by blast
  let ?s2 = "s1\<lparr>pinned := (pinned s1)[i := pinned s1 ! i AND NOT IN_USE]\<rparr>"
  let ?pre = "?s2\<lparr>pinned := (pinned ?s2)[i := 0]\<rparr>"
  have il: "i < length (pinned s1)" and m: "pinned s1 ! i AND NOT IN_USE = A"
    using scan_Some [OF i] len1 by simp_all
  note fd = free_deferred [OF c1 assms(4) i]
  have c2: "consistent ?s2 (L - {A})" using fd(2) .
  have st2: "settled ?s2" using st1 by (simp add: settled_pinned)
  have dA: "A \<in> set (deferred ?s2)" using fd(3) by simp
  have of2: "objectsFree ?s2 = objectsFree s" and fl2: "freeList ?s2 = freeList s"
    using s1 by simp_all
  have nF: "A \<notin> set (freeList ?s2)" using c2 dA by (auto simp add: consistent_def)
  have una: "\<forall>cs1 s' L' q s''.
          (\<forall>c \<in> set cs1. \<forall>x. c \<noteq> Unpin x) \<and> run once cs1 (?s2, L - {A}) = Inr (s', L') \<and>
          malloc s' = Inr (q, s'') \<longrightarrow> q \<noteq> A"
  proof (intro allI impI)
    fix cs1 s' L' q s''
    assume h: "(\<forall>c \<in> set cs1. \<forall>x. c \<noteq> Unpin x) \<and> run once cs1 (?s2, L - {A}) = Inr (s', L') \<and>
          malloc s' = Inr (q, s'')"
    then have h1: "\<forall>c \<in> set cs1. \<forall>x. c \<noteq> Unpin x"
      and h2: "run once cs1 (?s2, L - {A}) = Inr (s', L')"
      and h3: "malloc s' = Inr (q, s'')" by simp_all
    have c': "consistent s' L'" using run_consistent [OF c2 h2] .
    have d': "A \<in> set (deferred s')" using run_deferred_stays [OF c2 dA h2 h1] .
    show "q \<noteq> A" using deferred_not_returned [OF c' d' h3] .
  qed
  have n2: "normalize ?s2 A = Inr A" using nA s1 by (simp add: normalize_pinned)
  have PA: "A AND NOT IN_USE = A" using flag_clear_mask [OF evA] .
  have "scan (\<lambda>e. e AND NOT IN_USE = A) ((pinned s1)[i := A]) 0 = Some i"
    using i PA il by (rule scan_update)
  then have i2: "scan (\<lambda>e. e AND NOT IN_USE = A) (pinned ?s2) 0 = Some i" using m by simp
  have fl: "pinned ?s2 ! i AND 1 = 0" using il m evA by simp
  obtain s3 where s3: "reclaim ?pre A = Inr s3" "unpin ?s2 A = Inr s3"
    "consistent ?pre (insert A (L - {A}))" "consistent s3 (L - {A})"
    using unpin_deferred [OF c2 n2 nzA i2 fl] by blast
  have st3: "settled s3" using reclaim_settled [OF s3(3) _ s3(1)] by simp
  have rc: "unat (objectsFree s3) = Suc (unat (objectsFree ?pre))" "pinned s3 = pinned ?pre"
    "if unat (objectsFree ?pre) + 1 = unat (totalObjects ?pre)
     then s3 = ?pre\<lparr>freeList := [], objectsFree := totalObjects ?pre,
                        reapableObjects := totalObjects ?pre, position := start ?pre\<rparr>
     else s3 = ?pre\<lparr>freeList := A # freeList ?pre, objectsFree := objectsFree ?pre + 1\<rparr>"
    using reclaim_consistent [OF s3(3), of A] s3(1) by auto
  have cnt: "unat (objectsFree s3) = unat (objectsFree s) + 1" using rc(1) s1 by simp
  have p3: "pinned s3 = (pinned ?s2)[i := 0]" using rc(2) by simp
  have z3: "pinned s3 ! i = 0" using p3 il by simp
  have last: "(freeList s3 = A # freeList s \<or>
       (freeList s3 = [] \<and> reapableObjects s3 = totalObjects s3 \<and> position s3 = start s3)) \<and>
      (\<exists>n ps s4. malloc_n (Suc n) s3 = Inr (ps @ [A], s4))"
  proof (cases "unat (objectsFree ?pre) + 1 = unat (totalObjects ?pre)")
    case True
    then have e: "s3 = ?pre\<lparr>freeList := [], objectsFree := totalObjects ?pre,
                        reapableObjects := totalObjects ?pre, position := start ?pre\<rparr>"
      using rc(3) by simp
    have a: "freeList s3 = []" "reapableObjects s3 = totalObjects s3" "position s3 = start s3"
      by (subst e, simp)+
    have t: "totalObjects s3 = totalObjects s" by (subst e) (simp add: s1)
    have sl: "slot s3 k = slot s k" by (subst e) (simp add: s1 slot_def)
    have "k < unat (totalObjects s3)" using k(1) t by simp
    then have "\<exists>n ps s4. malloc_n (Suc n) s3 = Inr (ps @ [slot s3 k], s4)"
      using s3(4) st3 a(2) by (intro returnable_after_reset)
    then show ?thesis using a sl k(2) by simp
  next
    case False
    then have e: "s3 = ?pre\<lparr>freeList := A # freeList ?pre, objectsFree := objectsFree ?pre + 1\<rparr>"
      using rc(3) by simp
    have a: "freeList s3 = A # freeList s" by (subst e) (simp add: s1)
    have "\<exists>n ps s4. malloc_n (Suc n) s3 = Inr (ps @ [A], s4)"
      using s3(4) st3 a by (rule returnable_from_list)
    then show ?thesis using a by simp
  qed
  show ?thesis
    using i fd(1) of2 fl2 nF una s3(2) s3(1) cnt p3 z3 last
    by (intro exI [of _ i] exI [of _ ?s2] exI [of _ s3]) simp
qed

lemma run_append:
  "run once (xs @ ys) c = (case run once xs c of Inl f \<Rightarrow> Inl f | Inr c1 \<Rightarrow> run once ys c1)"
  by (induction xs arbitrary: c) (auto split: sum.splits)

theorem deferred_free_witness:
  "ZeusSuperblockHeaderHelper env0 64 256 0x2000 = Inr hdr0 \<and> fresh env0 256 0x2000 \<and>
   run False [Allocate, Allocate] (hdr0, {}) =
     Inr (hdr0\<lparr>position := 0x2080, reapableObjects := 2, objectsFree := 2\<rparr>, {0x2000, 0x2040}) \<and>
   (0x2000 :: addr) \<in> {0x2000, 0x2040} \<and>
   pin (hdr0\<lparr>position := 0x2080, reapableObjects := 2, objectsFree := 2\<rparr>) 0x2000
     = Inr hdr_pinned \<and>
   (\<exists>i s2 s3.
      scan (\<lambda>e. e AND NOT IN_USE = 0x2000) (pinned hdr_pinned) 0 = Some i \<and>
      free hdr_pinned 0x2000 = Inr s2 \<and>
      objectsFree s2 = 2 \<and> freeList s2 = [] \<and>
      unpin s2 0x2000 = Inr s3 \<and>
      unat (objectsFree s3) = 3 \<and> pinned s3 ! i = 0 \<and> freeList s3 = [0x2000] \<and>
      (\<exists>n ps s4. malloc_n (Suc n) s3 = Inr (ps @ [0x2000], s4)))"
proof -
  let ?h1 = "hdr0\<lparr>position := 0x2040, reapableObjects := 3, objectsFree := 3\<rparr>"
  let ?h2 = "hdr0\<lparr>position := 0x2080, reapableObjects := 2, objectsFree := 2\<rparr>"
  have m2: "malloc ?h1 = Inr (0x2040, ?h2)"
    by (simp add: malloc_def reapAlloc_def getSize_def isValid_def hdr0_def Let_def Alignment_def)
  have r: "run False [Allocate, Allocate] (hdr0, {}) = Inr (?h2, {0x2000, 0x2040})"
    using malloc_hdr0 m2 by (simp add: insert_commute)
  have a: "(0x2000 :: addr) \<in> {0x2000, 0x2040}" by simp
  have p: "pin ?h2 0x2000 = Inr hdr_pinned"
    by (simp add: pin_def normalize_def isValid_def hdr0_def hdr_pinned_def IN_USE_def
        scan.simps [of _ _ 0] MAX_PINNED_def)
  obtain i s2 s3 where t:
      "scan (\<lambda>e. e AND NOT IN_USE = 0x2000) (pinned hdr_pinned) 0 = Some i"
      "free hdr_pinned 0x2000 = Inr s2"
      "objectsFree s2 = objectsFree ?h2" "freeList s2 = freeList ?h2"
      "unpin s2 0x2000 = Inr s3"
      "unat (objectsFree s3) = unat (objectsFree ?h2) + 1" "pinned s3 ! i = 0"
      "freeList s3 = 0x2000 # freeList ?h2 \<or>
       (freeList s3 = [] \<and> reapableObjects s3 = totalObjects s3 \<and> position s3 = start s3)"
      "\<exists>n ps s4. malloc_n (Suc n) s3 = Inr (ps @ [0x2000], s4)"
    using deferred_free [OF construct_hdr0 fresh_env0 r a p] by blast
  have o2: "objectsFree s2 = 2" and f2: "freeList s2 = []" using t(3,4) by (simp_all add: hdr0_def)
  have o3: "unat (objectsFree s3) = 3" using t(6) by simp
  have t3: "totalObjects s3 = 4"
    using unpin_static [OF t(5)] free_static [OF t(2)] by (simp add: hdr_pinned_def hdr0_def)
  have "objectsFree s3 \<noteq> totalObjects s3" using o3 t3 by auto
  moreover have "freeList s3 = [] \<and> reapableObjects s3 = totalObjects s3 \<longrightarrow>
      objectsFree s3 = totalObjects s3"
  proof
    assume h: "freeList s3 = [] \<and> reapableObjects s3 = totalObjects s3"
    have i2: "in_slots s2 0x2000"
      using free_static [OF t(2)] by (simp add: in_slots_def hdr_pinned_def hdr0_def)
    have "run False [Release 0x2000, Unpin 0x2000] (hdr_pinned, {0x2000, 0x2040})
        = Inr (s3, {0x2040})"
      using t(2,5) i2 by simp
    then have "run False ([Allocate, Allocate, Pin 0x2000] @ [Release 0x2000, Unpin 0x2000])
        (hdr0, {}) = Inr (s3, {0x2040})"
      by (simp only: run_append run_hdr_pinned sum.case)
    then have "consistent s3 {0x2040}"
      using reachable_invariant(1) [OF construct_hdr0 fresh_env0] by blast
    then have "unat (objectsFree s3) = unat (reapableObjects s3) + length (freeList s3)"
      by (simp add: consistent_def)
    then show "objectsFree s3 = totalObjects s3" using h by (simp add: word_unat_eq_iff)
  qed
  ultimately have f3: "freeList s3 = [0x2000]" using t(8) by (auto simp add: hdr0_def)
  show ?thesis using construct_hdr0 fresh_env0 r a p t(1,2,5,7,9) o2 f2 o3 f3 by blast
qed

end
